theory Spec2Isabelle
  imports Main "HOL-Library.Word" "HOL-Library.Sublist"
begin

section \<open>JavaScript strings\<close>

text \<open>
  A JavaScript string is a sequence of UTF-16 code units. The regular expressions of the
  program carry no \<^verbatim>\<open>u\<close> flag, so they too work on code units. The literals of the
  source are all ASCII and are written \<open>js ''...''\<close>.
\<close>

type_synonym jschar = "16 word"
type_synonym jsstring = "jschar list"

definition js :: "string \<Rightarrow> jsstring" where
  "js s = map of_char s"

text \<open>
  \<^verbatim>\<open>LineTerminator\<close>: LF, CR, LS and PS. The pattern character \<^verbatim>\<open>.\<close> matches
  everything else, and \<^verbatim>\<open>^\<close> under the \<^verbatim>\<open>m\<close> flag matches after one of them.
\<close>

definition is_line_terminator :: "jschar \<Rightarrow> bool" where
  "is_line_terminator c \<longleftrightarrow> c = 0x000A \<or> c = 0x000D \<or> c = 0x2028 \<or> c = 0x2029"

text \<open>
  The class \<^verbatim>\<open>\s\<close>, which is also what \<^verbatim>\<open>String.prototype.trim\<close> strips:
  \<^verbatim>\<open>WhiteSpace\<close> (TAB, VT, FF, ZWNBSP and the space separators of Unicode) together with
  \<^verbatim>\<open>LineTerminator\<close>.
\<close>

definition is_space :: "jschar \<Rightarrow> bool" where
  "is_space c \<longleftrightarrow>
     c = 0x0009 \<or> c = 0x000B \<or> c = 0x000C \<or> c = 0x0020 \<or> c = 0x00A0 \<or> c = 0x1680 \<or>
     (0x2000 \<le> c \<and> c \<le> 0x200A) \<or> c = 0x202F \<or> c = 0x205F \<or> c = 0x3000 \<or> c = 0xFEFF \<or>
     is_line_terminator c"

definition trim :: "jsstring \<Rightarrow> jsstring" where
  "trim s = rev (dropWhile is_space (rev (dropWhile is_space s)))"

text \<open>\<^verbatim>\<open>s.substring(a, b)\<close>: both indices are clamped to the length and swapped when \<open>b < a\<close>.\<close>

definition substring :: "nat \<Rightarrow> nat \<Rightarrow> jsstring \<Rightarrow> jsstring" where
  "substring a b s =
     (let a' = min a (length s); b' = min b (length s);
          lo = min a' b'; hi = max a' b'
      in take (hi - lo) (drop lo s))"

text \<open>\<^verbatim>\<open>s.split(sep)\<close> with a one-character string separator; the empty string gives one empty piece.\<close>

fun split_char :: "jschar \<Rightarrow> jsstring \<Rightarrow> jsstring list" where
  "split_char sep [] = [[]]"
| "split_char sep (c # cs) =
     (if c = sep then [] # split_char sep cs
      else (case split_char sep cs of
              [] \<Rightarrow> [[c]]
            | p # ps \<Rightarrow> (c # p) # ps))"

section \<open>The regular expressions of the source: a backtracking matcher\<close>

text \<open>
  The fragment of ECMAScript patterns the program uses. \<open>Bol\<close> is \<^verbatim>\<open>^\<close> under the
  \<^verbatim>\<open>m\<close> flag, \<open>Bos\<close> is \<^verbatim>\<open>^\<close> without it, \<open>Eos\<close> is \<^verbatim>\<open>$\<close> without it.
  \<open>Star\<close> is the greedy \<^verbatim>\<open>*\<close>, \<open>Lazy\<close> the non-greedy \<^verbatim>\<open>*?\<close>, \<open>Group\<close> the
  capturing group number 1 (no pattern of the source has a second one), \<open>Ahead\<close> the
  lookahead \<^verbatim>\<open>(?=...)\<close>.
\<close>

datatype rx =
    Lit jsstring
  | Cls "jschar \<Rightarrow> bool"
  | Seq rx rx
  | Alt rx rx
  | Star rx
  | Lazy rx
  | Group rx
  | Ahead rx
  | Bol
  | Bos
  | Eos

text \<open>
  A matcher state: the input already passed, last code unit first, the input still ahead,
  and the capture of group 1 once the group has matched.
\<close>

record mstate =
  passed :: jsstring
  rest :: jsstring
  cap :: "jsstring option"

definition advance :: "nat \<Rightarrow> mstate \<Rightarrow> mstate" where
  "advance n s = s\<lparr>passed := rev (take n (rest s)) @ passed s, rest := drop n (rest s)\<rparr>"

text \<open>
  \<open>run r s\<close> lists the states in which a match of \<open>r\<close> started in \<open>s\<close> can end, in the
  order in which a backtracking matcher tries them: the head of the list is the match that
  ECMAScript reports. An iteration of a star that consumes nothing is rejected, as
  \<^verbatim>\<open>RepeatMatcher\<close> does.
\<close>

function run :: "rx \<Rightarrow> mstate \<Rightarrow> mstate list" where
  "run (Lit w) s = (if prefix w (rest s) then [advance (length w) s] else [])"
| "run (Cls P) s =
     (case rest s of [] \<Rightarrow> [] | c # cs \<Rightarrow> if P c then [advance 1 s] else [])"
| "run (Seq a b) s = concat (map (run b) (run a s))"
| "run (Alt a b) s = run a s @ run b s"
| "run (Star a) s =
     concat (map (\<lambda>t. if length (rest t) < length (rest s) then run (Star a) t else [])
                 (run a s)) @ [s]"
| "run (Lazy a) s =
     s # concat (map (\<lambda>t. if length (rest t) < length (rest s) then run (Lazy a) t else [])
                     (run a s))"
| "run (Group a) s =
     map (\<lambda>t. t\<lparr>cap := Some (take (length (rest s) - length (rest t)) (rest s))\<rparr>) (run a s)"
| "run (Ahead a) s = (if run a s = [] then [] else [s])"
| "run Bol s =
     (case passed s of [] \<Rightarrow> [s] | c # cs \<Rightarrow> if is_line_terminator c then [s] else [])"
| "run Bos s = (if passed s = [] then [s] else [])"
| "run Eos s = (if rest s = [] then [s] else [])"
  by pat_completeness auto
termination
  by (relation "inv_image (less_than <*lex*> less_than) (\<lambda>(r, s). (size r, length (rest s)))")
     auto

section \<open>The regular-expression methods of strings\<close>

text \<open>What \<^verbatim>\<open>RegExp.prototype.exec\<close> returns: \<^verbatim>\<open>index\<close>, element 0 and element 1.\<close>

record jsmatch =
  m_index :: nat
  m_whole :: jsstring
  m_group1 :: "jsstring option"

text \<open>One attempt at the position that has \<open>bef\<close> behind it (reversed) and \<open>rst\<close> ahead.\<close>

definition exec_at :: "rx \<Rightarrow> jsstring \<Rightarrow> jsstring \<Rightarrow> jsmatch option" where
  "exec_at r bef rst =
     (case run r \<lparr>passed = bef, rest = rst, cap = None\<rparr> of
        [] \<Rightarrow> None
      | t # _ \<Rightarrow> Some \<lparr>m_index = length bef,
                       m_whole = take (length rst - length (rest t)) rst,
                       m_group1 = cap t\<rparr>)"

text \<open>The leftmost position at which an attempt succeeds, the end of the input included.\<close>

fun search :: "rx \<Rightarrow> jsstring \<Rightarrow> jsstring \<Rightarrow> jsmatch option" where
  "search r bef [] = exec_at r bef []"
| "search r bef (c # cs) =
     (case exec_at r bef (c # cs) of
        Some m \<Rightarrow> Some m
      | None \<Rightarrow> search r (c # bef) cs)"

text \<open>\<^verbatim>\<open>text.match(re)\<close> for a pattern without the \<^verbatim>\<open>g\<close> flag.\<close>

definition js_match :: "rx \<Rightarrow> jsstring \<Rightarrow> jsmatch option" where
  "js_match r text = search r [] text"

text \<open>
  The matches of a pattern with the \<^verbatim>\<open>g\<close> flag, as \<^verbatim>\<open>matchAll\<close> and
  \<^verbatim>\<open>replace\<close> collect them: each search starts at \<^verbatim>\<open>lastIndex\<close>, the end of the
  match before, moved one further after an empty match.
\<close>

function match_all_from :: "rx \<Rightarrow> jsstring \<Rightarrow> nat \<Rightarrow> jsmatch list" where
  "match_all_from r text k =
     (if length text < k then []
      else (case search r (rev (take k text)) (drop k text) of
              None \<Rightarrow> []
            | Some m \<Rightarrow>
                (let e = m_index m + length (m_whole m);
                     k' = (if m_whole m = [] then e + 1 else e)
                 in m # (if k < k' then match_all_from r text k' else []))))"
  by pat_completeness auto
termination
  by (relation "measure (\<lambda>(r, text, k). Suc (length text) - k)") auto

definition match_all :: "rx \<Rightarrow> jsstring \<Rightarrow> jsmatch list" where
  "match_all r text = match_all_from r text 0"

text \<open>
  \<^verbatim>\<open>text.replace(re, ...)\<close>: \<open>splice\<close> copies the text between the matches and puts the
  replacement \<open>f m\<close> in place of each match \<open>m\<close>.
\<close>

fun splice :: "(jsmatch \<Rightarrow> jsstring) \<Rightarrow> jsstring \<Rightarrow> nat \<Rightarrow> jsmatch list \<Rightarrow> jsstring" where
  "splice f text p [] = substring p (length text) text"
| "splice f text p (m # ms) =
     (if p \<le> m_index m
      then substring p (m_index m) text @ f m @
           splice f text (m_index m + length (m_whole m)) ms
      else splice f text p ms)"

definition replace_all :: "rx \<Rightarrow> (jsmatch \<Rightarrow> jsstring) \<Rightarrow> jsstring \<Rightarrow> jsstring" where
  "replace_all r f text = splice f text 0 (match_all r text)"

definition replace_first :: "rx \<Rightarrow> (jsmatch \<Rightarrow> jsstring) \<Rightarrow> jsstring \<Rightarrow> jsstring" where
  "replace_first r f text =
     (case js_match r text of
        None \<Rightarrow> text
      | Some m \<Rightarrow> splice f text 0 [m])"

text \<open>
  \<^verbatim>\<open>text.split(re)\<close> for a pattern without capturing group, as the one of the source:
  \<open>p\<close> is the end of the last separator, \<open>q\<close> the position tried next. A separator that
  ends where the last one ended is passed over.
\<close>

function split_loop :: "rx \<Rightarrow> jsstring \<Rightarrow> nat \<Rightarrow> nat \<Rightarrow> jsstring list" where
  "split_loop r S p q =
     (if q < length S
      then (case exec_at r (rev (take q S)) (drop q S) of
              None \<Rightarrow> split_loop r S p (q + 1)
            | Some m \<Rightarrow>
                (let e = min (q + length (m_whole m)) (length S)
                 in if e = p then split_loop r S p (q + 1)
                    else substring p q S # split_loop r S e e))
      else [substring p (length S) S])"
  by pat_completeness auto
termination
  by (relation "inv_image (less_than <*lex*> less_than)
                  (\<lambda>(r, S, p, q). (length S - q, if p = q then 0 else Suc 0))")
     (auto simp: min_def neq_Nil_conv split: if_splits)

definition split_rx :: "rx \<Rightarrow> jsstring \<Rightarrow> jsstring list" where
  "split_rx r S =
     (if S = [] then (case exec_at r [] [] of None \<Rightarrow> [S] | Some m \<Rightarrow> [])
      else split_loop r S 0 0)"

section \<open>The inline formatter\<close>

definition nl :: jschar where
  "nl = 0x000A"

text \<open>\<^verbatim>\<open>/\*\*([^*]+)\*\*/g\<close>\<close>

definition bold_rx :: rx where
  "bold_rx =
     Seq (Lit (js ''**''))
    (Seq (Group (Seq (Cls (\<lambda>c. c \<noteq> 0x002A)) (Star (Cls (\<lambda>c. c \<noteq> 0x002A)))))
         (Lit (js ''**'')))"

text \<open>\<^verbatim>\<open>/\n\s*(?=\*)/\<close>\<close>

definition paragraph_rx :: rx where
  "paragraph_rx = Seq (Lit [nl]) (Seq (Star (Cls is_space)) (Ahead (Lit (js ''*''))))"

text \<open>\<^verbatim>\<open>/\n/g\<close>\<close>

definition newline_rx :: rx where
  "newline_rx = Lit [nl]"

text \<open>The replacement \<^verbatim>\<open>'<strong>$1</strong>'\<close>; a group that did not match expands to nothing.\<close>

definition strong_of :: "jsmatch \<Rightarrow> jsstring" where
  "strong_of m =
     js ''<strong>'' @ (case m_group1 m of None \<Rightarrow> [] | Some g \<Rightarrow> g) @ js ''</strong>''"

text \<open>The paragraphs that \<^verbatim>\<open>withBold.split(/\n\s*(?=\*)/)\<close> yields.\<close>

definition paragraphs_of :: "jsstring \<Rightarrow> jsstring list" where
  "paragraphs_of rawText = split_rx paragraph_rx (replace_all bold_rx strong_of rawText)"

text \<open>The callback of \<^verbatim>\<open>paragraphs.map\<close>.\<close>

definition html_paragraph :: "jsstring \<Rightarrow> jsstring" where
  "html_paragraph p =
     (let content = trim p;
          content = (if prefix (js ''*'') content
                     then trim (substring 1 (length content) content)
                     else content)
      in js ''<p>'' @ replace_all newline_rx (\<lambda>m. js ''<br>'') content @ js ''</p>'')"

definition formatAIResponseWithAsterisks :: "jsstring \<Rightarrow> jsstring" where
  "formatAIResponseWithAsterisks rawText =
     (if rawText = [] then []
      else concat (map html_paragraph (paragraphs_of rawText)))"

section \<open>The extractor\<close>

record Recommendation =
  element :: jsstring
  suggestion :: jsstring
  reasoning :: jsstring

text \<open>
  \<^verbatim>\<open>ListingAnalysis\<close>. Its optional field \<^verbatim>\<open>sources\<close> is left out: the extractor never
  sets it. The extractor always sets \<^verbatim>\<open>price_analysis\<close>.
\<close>

record ListingAnalysis =
  overall_assessment :: jsstring
  price_analysis :: jsstring
  recommendations :: "Recommendation list"
  suggested_keywords :: "jsstring list"

text \<open>
  The only way the extractor can throw: \<^verbatim>\<open>match[1].trim()\<close> is a \<^verbatim>\<open>TypeError\<close> when
  group 1 took no part in the match and \<^verbatim>\<open>match[1]\<close> is \<^verbatim>\<open>undefined\<close>.
\<close>

datatype js_error = TypeError

definition and_then :: "js_error + 'a \<Rightarrow> ('a \<Rightarrow> js_error + 'b) \<Rightarrow> js_error + 'b" where
  "and_then x f = (case x of Inl e \<Rightarrow> Inl e | Inr v \<Rightarrow> f v)"

definition group1 :: "jsmatch \<Rightarrow> js_error + jsstring" where
  "group1 m = (case m_group1 m of None \<Rightarrow> Inl TypeError | Some g \<Rightarrow> Inr g)"

definition group1_trim :: "jsmatch \<Rightarrow> js_error + jsstring" where
  "group1_trim m = and_then (group1 m) (\<lambda>g. Inr (trim g))"

definition any_char :: "jschar \<Rightarrow> bool" where
  "any_char c \<longleftrightarrow> is_space c \<or> \<not> is_space c"

text \<open>\<^verbatim>\<open>/##\s*Overall Assessment\s*([\s\S]*?)(?=\n##|$)/\<close>\<close>

definition assessment_rx :: rx where
  "assessment_rx =
     Seq (Lit (js ''##'')) (Seq (Star (Cls is_space)) (Seq (Lit (js ''Overall Assessment''))
    (Seq (Star (Cls is_space)) (Seq (Group (Lazy (Cls any_char)))
         (Ahead (Alt (Lit (nl # js ''##'')) Eos))))))"

text \<open>\<^verbatim>\<open>/##\s*Price Analysis\s*([\s\S]*?)(?=\n##|$)/\<close>\<close>

definition price_rx :: rx where
  "price_rx =
     Seq (Lit (js ''##'')) (Seq (Star (Cls is_space)) (Seq (Lit (js ''Price Analysis''))
    (Seq (Star (Cls is_space)) (Seq (Group (Lazy (Cls any_char)))
         (Ahead (Alt (Lit (nl # js ''##'')) Eos))))))"

text \<open>\<^verbatim>\<open>/##\s*Suggested SEO Tags \(13\)\s*([\s\S]*?)(?=\n##|$)/\<close>\<close>

definition tags_rx :: rx where
  "tags_rx =
     Seq (Lit (js ''##'')) (Seq (Star (Cls is_space)) (Seq (Lit (js ''Suggested SEO Tags (13)''))
    (Seq (Star (Cls is_space)) (Seq (Group (Lazy (Cls any_char)))
         (Ahead (Alt (Lit (nl # js ''##'')) Eos))))))"

text \<open>\<^verbatim>\<open>/##\s*Actionable Recommendations\s*([\s\S]*?)(?=\n##\s*Suggested SEO Tags|$)/\<close>\<close>

definition recommendations_rx :: rx where
  "recommendations_rx =
     Seq (Lit (js ''##'')) (Seq (Star (Cls is_space))
    (Seq (Lit (js ''Actionable Recommendations''))
    (Seq (Star (Cls is_space)) (Seq (Group (Lazy (Cls any_char)))
         (Ahead (Alt (Seq (Lit (nl # js ''##''))
                     (Seq (Star (Cls is_space)) (Lit (js ''Suggested SEO Tags''))))
                     Eos))))))"

text \<open>\<^verbatim>\<open>/^###\s*Element:\s*(.*)/gm\<close>\<close>

definition element_rx :: rx where
  "element_rx =
     Seq Bol (Seq (Lit (js ''###'')) (Seq (Star (Cls is_space)) (Seq (Lit (js ''Element:''))
    (Seq (Star (Cls is_space)) (Group (Star (Cls (\<lambda>c. \<not> is_line_terminator c))))))))"

text \<open>\<^verbatim>\<open>/####\s*Suggestion:\s*([\s\S]*?)(?=\n####\s*Reasoning:|$)/\<close>\<close>

definition suggestion_rx :: rx where
  "suggestion_rx =
     Seq (Lit (js ''####'')) (Seq (Star (Cls is_space)) (Seq (Lit (js ''Suggestion:''))
    (Seq (Star (Cls is_space)) (Seq (Group (Lazy (Cls any_char)))
         (Ahead (Alt (Seq (Lit (nl # js ''####''))
                     (Seq (Star (Cls is_space)) (Lit (js ''Reasoning:''))))
                     Eos))))))"

text \<open>\<^verbatim>\<open>/####\s*Reasoning:\s*([\s\S]*)/\<close>\<close>

definition reasoning_rx :: rx where
  "reasoning_rx =
     Seq (Lit (js ''####'')) (Seq (Star (Cls is_space)) (Seq (Lit (js ''Reasoning:''))
    (Seq (Star (Cls is_space)) (Group (Star (Cls any_char))))))"

text \<open>\<^verbatim>\<open>/^-/\<close>\<close>

definition hyphen_rx :: rx where
  "hyphen_rx = Seq Bos (Lit (js ''-''))"

text \<open>
  \<^verbatim>\<open>tagsMatch[1].split('\n').map(kw => kw.replace(/^-/, '').trim()).filter(Boolean)
  .map(kw => kw.substring(0, 20))\<close>
\<close>

definition keywords_of :: "jsstring \<Rightarrow> jsstring list" where
  "keywords_of body =
     map (\<lambda>kw. substring 0 20 kw)
       (filter (\<lambda>kw. kw \<noteq> [])
          (map (\<lambda>kw. trim (replace_first hyphen_rx (\<lambda>m. []) kw))
             (split_char nl body)))"

text \<open>
  \<^verbatim>\<open>m ? m[1].trim() : ''\<close> for the result \<open>m\<close> of \<^verbatim>\<open>chunk.match(...)\<close>.
\<close>

definition trimmed_group_or_empty :: "jsmatch option \<Rightarrow> js_error + jsstring" where
  "trimmed_group_or_empty mo = (case mo of None \<Rightarrow> Inr [] | Some m \<Rightarrow> group1_trim m)"

text \<open>
  The callback of \<^verbatim>\<open>elementMatches.forEach\<close>, with the list
  \<^verbatim>\<open>analysis.recommendations\<close> it pushes to as its state \<open>recs\<close>.
\<close>

definition element_callback ::
  "jsstring \<Rightarrow> jsmatch list \<Rightarrow> nat \<Rightarrow> jsmatch \<Rightarrow> Recommendation list
     \<Rightarrow> js_error + Recommendation list" where
  "element_callback recommendationsText elementMatches index match recs =
     and_then (group1_trim match) (\<lambda>elem.
       let startIndex = m_index match + length (m_whole match);
           endIndex = (if index + 1 < length elementMatches
                       then m_index (elementMatches ! (index + 1))
                       else length recommendationsText);
           chunk = substring startIndex endIndex recommendationsText
       in and_then (trimmed_group_or_empty (js_match suggestion_rx chunk)) (\<lambda>sugg.
          and_then (trimmed_group_or_empty (js_match reasoning_rx chunk)) (\<lambda>reas.
            Inr (if elem \<noteq> [] \<and> (sugg \<noteq> [] \<or> reas \<noteq> [])
                 then recs @ [\<lparr>element = elem, suggestion = sugg, reasoning = reas\<rparr>]
                 else recs))))"

text \<open>\<^verbatim>\<open>forEach\<close>: the callback gets each element and its index; an exception ends the loop.\<close>

fun for_each ::
  "(nat \<Rightarrow> 'a \<Rightarrow> 's \<Rightarrow> js_error + 's) \<Rightarrow> nat \<Rightarrow> 'a list \<Rightarrow> 's \<Rightarrow> js_error + 's" where
  "for_each f i [] st = Inr st"
| "for_each f i (x # xs) st = and_then (f i x st) (for_each f (Suc i) xs)"

definition parse_recommendations ::
  "jsstring \<Rightarrow> Recommendation list \<Rightarrow> js_error + Recommendation list" where
  "parse_recommendations recommendationsText recs =
     (let elementMatches = match_all element_rx recommendationsText
      in for_each (element_callback recommendationsText elementMatches) 0 elementMatches recs)"

text \<open>The four \<^verbatim>\<open>if (...Match) { ... }\<close> statements, in the order of the source.\<close>

definition read_assessment :: "jsstring \<Rightarrow> ListingAnalysis \<Rightarrow> js_error + ListingAnalysis" where
  "read_assessment text analysis =
     (case js_match assessment_rx text of
        None \<Rightarrow> Inr analysis
      | Some assessmentMatch \<Rightarrow>
          and_then (group1_trim assessmentMatch)
            (\<lambda>b. Inr (analysis\<lparr>overall_assessment := b\<rparr>)))"

definition read_price :: "jsstring \<Rightarrow> ListingAnalysis \<Rightarrow> js_error + ListingAnalysis" where
  "read_price text analysis =
     (case js_match price_rx text of
        None \<Rightarrow> Inr analysis
      | Some priceMatch \<Rightarrow>
          and_then (group1_trim priceMatch)
            (\<lambda>b. Inr (analysis\<lparr>price_analysis := b\<rparr>)))"

definition read_tags :: "jsstring \<Rightarrow> ListingAnalysis \<Rightarrow> js_error + ListingAnalysis" where
  "read_tags text analysis =
     (case js_match tags_rx text of
        None \<Rightarrow> Inr analysis
      | Some tagsMatch \<Rightarrow>
          and_then (group1 tagsMatch)
            (\<lambda>b. Inr (analysis\<lparr>suggested_keywords := keywords_of b\<rparr>)))"

definition read_recommendations ::
  "jsstring \<Rightarrow> ListingAnalysis \<Rightarrow> js_error + ListingAnalysis" where
  "read_recommendations text analysis =
     (case js_match recommendations_rx text of
        None \<Rightarrow> Inr analysis
      | Some recommendationsBlockMatch \<Rightarrow>
          and_then (group1 recommendationsBlockMatch) (\<lambda>recommendationsText.
          and_then (parse_recommendations recommendationsText (recommendations analysis))
            (\<lambda>recs. Inr (analysis\<lparr>recommendations := recs\<rparr>))))"

definition parseAnalysisFromText :: "jsstring \<Rightarrow> js_error + ListingAnalysis" where
  "parseAnalysisFromText text =
     and_then (read_assessment text
                 \<lparr>overall_assessment = [], price_analysis = [],
                  recommendations = [], suggested_keywords = []\<rparr>) (\<lambda>analysis.
     and_then (read_price text analysis) (\<lambda>analysis.
     and_then (read_tags text analysis) (\<lambda>analysis.
     read_recommendations text analysis)))"

section \<open>Line scanners that the patterns are compared with\<close>

text \<open>
  The definitions of this section are not part of the program. They say in plain recursion
  over the text what the patterns of the extractor find, and the lemmas below prove that
  the matcher finds just that.
\<close>

text \<open>The match that is reported: the first of the list.\<close>

definition first_of :: "'a list \<Rightarrow> 'a option" where
  "first_of ts = (case ts of [] \<Rightarrow> None | t # _ \<Rightarrow> Some t)"

text \<open>The text in front of the first place at which \<open>stop\<close> holds of what is left.\<close>

fun scan_until :: "(jsstring \<Rightarrow> bool) \<Rightarrow> jsstring \<Rightarrow> jsstring" where
  "scan_until stop [] = []"
| "scan_until stop (c # cs) = (if stop (c # cs) then [] else c # scan_until stop cs)"

text \<open>
  The shape the patterns of the extractor share: the hashes \<open>h\<close>, white space, the name,
  white space, and a tail; for a section the tail is a lazy capture up to a stop pattern or
  the end of the text.
\<close>

definition heading_rx :: "jsstring \<Rightarrow> jsstring \<Rightarrow> rx \<Rightarrow> rx" where
  "heading_rx h name tail =
     Seq (Lit h) (Seq (Star (Cls is_space)) (Seq (Lit name) (Seq (Star (Cls is_space)) tail)))"

definition section_rx :: "jsstring \<Rightarrow> jsstring \<Rightarrow> rx \<Rightarrow> rx" where
  "section_rx h name stop =
     heading_rx h name (Seq (Group (Lazy (Cls any_char))) (Ahead (Alt stop Eos)))"

text \<open>
  A heading at the start of \<open>s\<close>: the hashes, white space, the name. The result is the
  text behind the name.
\<close>

definition after_heading :: "jsstring \<Rightarrow> jsstring \<Rightarrow> jsstring \<Rightarrow> jsstring option" where
  "after_heading h name s =
     (if prefix h s
      then (let r = dropWhile is_space (drop (length h) s)
            in if prefix name r then Some (drop (length name) r) else None)
      else None)"

text \<open>The first occurrence of a heading: its position and the text behind its name.\<close>

fun find_heading :: "jsstring \<Rightarrow> jsstring \<Rightarrow> jsstring \<Rightarrow> (nat \<times> jsstring) option" where
  "find_heading h name [] = map_option (Pair 0) (after_heading h name [])"
| "find_heading h name (c # cs) =
     (case after_heading h name (c # cs) of
        Some r \<Rightarrow> Some (0, r)
      | None \<Rightarrow> map_option (\<lambda>(i, r). (Suc i, r)) (find_heading h name cs))"

text \<open>
  What group 1 of such a pattern captures: \<open>body\<close> of the text behind the first
  occurrence of the heading and the white space that follows it.
\<close>

definition heading_body ::
  "jsstring \<Rightarrow> jsstring \<Rightarrow> (jsstring \<Rightarrow> jsstring) \<Rightarrow> jsstring \<Rightarrow> jsstring option" where
  "heading_body h name body text =
     map_option (\<lambda>(i, r). body (dropWhile is_space r)) (find_heading h name text)"

definition section_body ::
  "jsstring \<Rightarrow> jsstring \<Rightarrow> (jsstring \<Rightarrow> bool) \<Rightarrow> jsstring \<Rightarrow> jsstring option" where
  "section_body h name stopP text = heading_body h name (scan_until stopP) text"

text \<open>The same without a scanner: a heading stands at the start of \<open>s\<close>, somewhere in the text.\<close>

definition heading_at :: "jsstring \<Rightarrow> jsstring \<Rightarrow> jsstring \<Rightarrow> bool" where
  "heading_at h name s \<longleftrightarrow> (\<exists>w r. s = h @ w @ name @ r \<and> (\<forall>c\<in>set w. is_space c))"

definition contains_heading :: "jsstring \<Rightarrow> jsstring \<Rightarrow> jsstring \<Rightarrow> bool" where
  "contains_heading h name text \<longleftrightarrow> (\<exists>pre s. text = pre @ s \<and> heading_at h name s)"

text \<open>
  Where the three lookaheads succeed: at \<^verbatim>\<open>\n##\<close>; at \<^verbatim>\<open>\n##\<close>, white space and
  \<^verbatim>\<open>Suggested SEO Tags\<close>; at \<^verbatim>\<open>\n####\<close>, white space and \<^verbatim>\<open>Reasoning:\<close>.
\<close>

definition level2_stop :: "jsstring \<Rightarrow> bool" where
  "level2_stop s \<longleftrightarrow> prefix (nl # js ''##'') s"

definition tags_stop :: "jsstring \<Rightarrow> bool" where
  "tags_stop s \<longleftrightarrow>
     prefix (nl # js ''##'') s \<and>
     prefix (js ''Suggested SEO Tags'') (dropWhile is_space (drop 3 s))"

definition reasoning_stop :: "jsstring \<Rightarrow> bool" where
  "reasoning_stop s \<longleftrightarrow>
     prefix (nl # js ''####'') s \<and>
     prefix (js ''Reasoning:'') (dropWhile is_space (drop 5 s))"

text \<open>A pattern every match of which sets group 1.\<close>

fun captures :: "rx \<Rightarrow> bool" where
  "captures (Group a) = True"
| "captures (Seq a b) = (captures a \<or> captures b)"
| "captures (Alt a b) = (captures a \<and> captures b)"
| "captures _ = False"

subsection \<open>The blocks of the recommendations\<close>

text \<open>
  What the two patterns of the loop body capture in a chunk. The suggestion: the text
  behind the first \<^verbatim>\<open>#### Suggestion:\<close> and the white space that follows it, up to the
  first place where the lookahead for \<^verbatim>\<open>#### Reasoning:\<close> succeeds or to the end of
  the chunk. The reasoning: the text behind the first \<^verbatim>\<open>#### Reasoning:\<close>. Both trimmed.
\<close>

definition chunk_suggestion :: "jsstring \<Rightarrow> jsstring" where
  "chunk_suggestion chunk =
     (case find_heading (js ''####'') (js ''Suggestion:'') chunk of
        None \<Rightarrow> []
      | Some (k, r) \<Rightarrow> trim (scan_until reasoning_stop (dropWhile is_space r)))"

definition chunk_reasoning :: "jsstring \<Rightarrow> jsstring" where
  "chunk_reasoning chunk =
     (case find_heading (js ''####'') (js ''Reasoning:'') chunk of
        None \<Rightarrow> []
      | Some (k, r) \<Rightarrow> trim r)"

text \<open>
  The chunk of block \<open>i\<close>, as the loop body cuts it: from the end of marker \<open>i\<close> to the
  start of the next marker, or to the end of the body.
\<close>

definition block_chunk :: "jsstring \<Rightarrow> jsmatch list \<Rightarrow> nat \<Rightarrow> jsstring" where
  "block_chunk body ms i =
     substring (m_index (ms ! i) + length (m_whole (ms ! i)))
               (if i + 1 < length ms then m_index (ms ! (i + 1)) else length body)
               body"

definition block_label :: "jsmatch \<Rightarrow> jsstring" where
  "block_label m = (case m_group1 m of None \<Rightarrow> [] | Some g \<Rightarrow> trim g)"

text \<open>The three values the loop body computes for block \<open>i\<close>, and all blocks of a body.\<close>

definition block_of :: "jsstring \<Rightarrow> jsmatch list \<Rightarrow> nat \<Rightarrow> Recommendation" where
  "block_of body ms i =
     \<lparr>element = block_label (ms ! i),
      suggestion = chunk_suggestion (block_chunk body ms i),
      reasoning = chunk_reasoning (block_chunk body ms i)\<rparr>"

definition element_blocks :: "jsstring \<Rightarrow> Recommendation list" where
  "element_blocks body =
     (let ms = match_all element_rx body in map (block_of body ms) [0..<length ms])"

text \<open>The condition of the \<^verbatim>\<open>if\<close> that guards the \<^verbatim>\<open>push\<close>.\<close>

definition contributes :: "Recommendation \<Rightarrow> bool" where
  "contributes b \<longleftrightarrow> element b \<noteq> [] \<and> (suggestion b \<noteq> [] \<or> reasoning b \<noteq> [])"



subsection \<open>The blocks of the recommendations, read from the text\<close>

text \<open>
  A block marker at the start of \<open>s\<close>: \<^verbatim>\<open>###\<close>, white space, \<^verbatim>\<open>Element:\<close>. The
  result is the text behind the marker.
\<close>

definition marker_at :: "jsstring \<Rightarrow> jsstring option" where
  "marker_at s = after_heading (js ''###'') (js ''Element:'') s"

text \<open>
  The text in front of the first marker that stands at the start of a line; \<open>ls\<close> says
  whether \<open>s\<close> itself starts a line.
\<close>

fun before_marker :: "bool \<Rightarrow> jsstring \<Rightarrow> jsstring" where
  "before_marker ls [] = []"
| "before_marker ls (c # cs) =
     (if ls \<and> marker_at (c # cs) \<noteq> None then []
      else c # before_marker (is_line_terminator c) cs)"

text \<open>
  A block as it stands in the text: the marker, the rest of the marker's line, and the
  text from the end of that line to the next marker or to the end of the body.
\<close>

record block_text =
  marker_text :: jsstring
  label_text :: jsstring
  chunk_text :: jsstring

text \<open>
  The blocks of a body, from left to right, as they are read off the text line by line.
  Behind the label line the scan is in the middle of a line, so the next marker is looked
  for behind the next line terminator. The pattern of the source finds the same blocks
  when no label line is blank; it reads on into the next line when one is.
\<close>

function text_blocks :: "bool \<Rightarrow> jsstring \<Rightarrow> block_text list" where
  "text_blocks ls s =
     (let s' = drop (length (before_marker ls s)) s
      in case marker_at s' of
           None \<Rightarrow> []
         | Some r \<Rightarrow>
             (let behind = dropWhile (\<lambda>c. \<not> is_line_terminator c) r
              in \<lparr>marker_text = take (length s' - length r) s',
                  label_text = takeWhile (\<lambda>c. \<not> is_line_terminator c) r,
                  chunk_text = before_marker False behind\<rparr> # text_blocks False behind))"
  by pat_completeness auto
termination
proof (relation "measure (\<lambda>(ls, s). length s)")
  show "wf (measure (\<lambda>(ls, s). length s))" by simp
next
  fix ls :: bool and s x :: jsstring and r xa :: jsstring
  assume x: "x = drop (length (before_marker ls s)) s"
    and m: "marker_at x = Some r"
    and xa: "xa = dropWhile (\<lambda>c. \<not> is_line_terminator c) r"
  have r: "r = drop (length (js ''Element:'')) (dropWhile is_space (drop (length (js ''###'')) x))"
    and p: "prefix (js ''###'') x"
    using m by (auto simp: marker_at_def after_heading_def Let_def split: if_splits)
  have a: "length r \<le> length (dropWhile is_space (drop (length (js ''###'')) x))"
    unfolding r by simp
  have b: "length (dropWhile is_space (drop (length (js ''###'')) x)) \<le> length x - length (js ''###'')"
    using length_dropWhile_le[of is_space "drop (length (js ''###'')) x"] by simp
  have c: "length (js ''###'') \<le> length x" using p by (rule prefix_length_le)
  have d: "0 < length (js ''###'')" by (simp add: js_def)
  have "length r < length x" using a b c d by linarith
  moreover have "length xa \<le> length r"
    unfolding xa by (rule length_dropWhile_le)
  moreover have "length x \<le> length s" unfolding x by simp
  ultimately show "((False, xa), (ls, s)) \<in> measure (\<lambda>(ls, s). length s)"
    by simp
qed


subsection \<open>The keywords\<close>

text \<open>
  The processing of the tag lines in the words of claim C3, one line at a time: remove a
  hyphen in first position, trim, drop the line when it is empty, keep 20 code units.
\<close>

definition strip_hyphen :: "jsstring \<Rightarrow> jsstring" where
  "strip_hyphen l = (case l of [] \<Rightarrow> [] | c # cs \<Rightarrow> if c = 0x002D then cs else l)"

fun spec_keywords :: "jsstring list \<Rightarrow> jsstring list" where
  "spec_keywords [] = []"
| "spec_keywords (l # ls) =
     (let t = trim (strip_hyphen l)
      in if t = [] then spec_keywords ls else take 20 t # spec_keywords ls)"

subsection \<open>The formatter\<close>

text \<open>A well-formed bold span somewhere in the text.\<close>

definition has_bold_span :: "jsstring \<Rightarrow> bool" where
  "has_bold_span t \<longleftrightarrow>
     (\<exists>pre inner post. t = pre @ js ''**'' @ inner @ js ''**'' @ post \<and>
        inner \<noteq> [] \<and> 0x002A \<notin> set inner)"

text \<open>Each newline replaced by \<^verbatim>\<open><br>\<close>.\<close>

definition line_breaks :: "jsstring \<Rightarrow> jsstring" where
  "line_breaks s = concat (map (\<lambda>c. if c = nl then js ''<br>'' else [c]) s)"

subsection \<open>Example texts\<close>

text \<open>A tags section: three tag lines and a blank one.\<close>

definition tags_example :: jsstring where
  "tags_example =
     js ''## Suggested SEO Tags (13)'' @ [nl] @ js ''- oak sign'' @ [nl] @ [nl] @
     js ''-custom welcome decor for weddings'' @ [nl] @ js '' - rustic''"

text \<open>A section body with three blocks.\<close>

definition two_blocks :: jsstring where
  "two_blocks =
     js ''### Element: Title'' @ [nl] @ js ''#### Suggestion: Shorter'' @ [nl] @
     js ''### Element: Photos'' @ [nl] @ js ''None yet'' @ [nl] @
     js ''### Element: Description'' @ [nl] @ js ''#### Reasoning: Too vague''"

text \<open>A text whose first heading stands in the middle of a line.\<close>

definition midline_heading :: jsstring where
  "midline_heading = js ''Intro ## Price Analysis Fair'' @ [nl] @ js ''## Price Analysis Low''"

text \<open>The example text of the bullet splitting.\<close>

definition bullet_example :: jsstring where
  "bullet_example = js ''Intro line'' @ [nl] @ js ''* First bullet'' @ [nl] @ js ''* Second bullet''"

text \<open>An analysis with two sections, the first with a third-level heading in its body.\<close>

definition two_sections :: jsstring where
  "two_sections =
     js ''## Overall Assessment'' @ [nl] @ js ''Good'' @ [nl] @ js ''### Details'' @ [nl] @
     js ''More'' @ [nl] @ js ''## Price Analysis'' @ [nl] @ js ''Fair''"

text \<open>A recommendations section followed by a price section.\<close>

definition recommendations_then_price :: jsstring where
  "recommendations_then_price =
     js ''## Actionable Recommendations'' @ [nl] @ js ''### Element: Title'' @ [nl] @
     js ''#### Suggestion: Shorter'' @ [nl] @ js ''## Price Analysis'' @ [nl] @ js ''Fair''"


text \<open>
  A section body whose only block has nothing behind \<^verbatim>\<open>Element:\<close> on the line of its
  marker.
\<close>

definition unlabelled_body :: jsstring where
  "unlabelled_body =
     js ''### Element:'' @ [nl] @ js ''#### Suggestion: Shorter'' @ [nl] @
     js ''#### Reasoning: Too long''"

text \<open>A tags section with a third-level heading among its tag lines.\<close>

definition tags_with_subheading :: jsstring where
  "tags_with_subheading =
     js ''## Suggested SEO Tags (13)'' @ [nl] @ js ''- oak sign'' @ [nl] @
     js ''### Materials'' @ [nl] @ js ''- pine''"

section \<open>Properties of the matcher\<close>

subsection \<open>States, and a class under a star\<close>

lemma advance_0 [simp]: "advance 0 s = s"
  by (simp add: advance_def)

lemma advance_advance [simp]: "advance i (advance j s) = advance (j + i) s"
  by (simp add: advance_def take_add) (simp add: add.commute)

lemma rest_advance [simp]: "rest (advance n s) = drop n (rest s)"
  by (simp add: advance_def)

lemma cap_advance [simp]: "cap (advance n s) = cap s"
  by (simp add: advance_def)

lemma passed_advance [simp]: "passed (advance n s) = rev (take n (rest s)) @ passed s"
  by (simp add: advance_def)

lemma first_of_simps [simp]:
  "first_of [] = None" "first_of (t # ts) = Some t"
  by (simp_all add: first_of_def)

lemma first_of_append: "first_of (xs @ ys) = (case first_of xs of None \<Rightarrow> first_of ys | Some t \<Rightarrow> Some t)"
  by (cases xs) simp_all

lemma first_of_None_iff [simp]: "first_of xs = None \<longleftrightarrow> xs = []"
  by (cases xs) simp_all

declare run.simps(5,6) [simp del]

lemma run_Star_Cls:
  "run (Star (Cls P)) s =
     (case rest s of [] \<Rightarrow> [s]
      | c # cs \<Rightarrow> if P c then run (Star (Cls P)) (advance 1 s) @ [s] else [s])"
  by (cases "rest s") (auto simp: run.simps(5))

lemma run_Lazy_Cls:
  "run (Lazy (Cls P)) s =
     s # (case rest s of [] \<Rightarrow> []
      | c # cs \<Rightarrow> if P c then run (Lazy (Cls P)) (advance 1 s) else [])"
  by (cases "rest s") (auto simp: run.simps(6))

text \<open>
  A greedy star of a class, followed by a matcher \<open>K\<close>: when \<open>K\<close> fails wherever a
  member of the class comes next, only the longest run of the star counts; when \<open>K\<close> never
  fails, the longest run gives the first match. No backtracking into the star matters.
\<close>

lemma star_then_blocked:
  assumes "\<And>t c cs. rest t = c # cs \<Longrightarrow> P c \<Longrightarrow> K t = []"
  shows "concat (map K (run (Star (Cls P)) s)) = K (advance (length (takeWhile P (rest s))) s)"
proof (induction "rest s" arbitrary: s)
  case Nil
  then show ?case by (simp add: run_Star_Cls[of P s])
next
  case (Cons c cs)
  show ?case
  proof (cases "P c")
    case True
    have r: "rest (advance 1 s) = cs" using Cons.hyps(2)[symmetric] by simp
    have "concat (map K (run (Star (Cls P)) (advance 1 s))) =
          K (advance (length (takeWhile P cs)) (advance 1 s))"
      using Cons.hyps(1)[of "advance 1 s"] r by simp
    moreover have "K s = []" using assms[of s c cs] Cons.hyps(2) True by simp
    ultimately show ?thesis
      using Cons.hyps(2)[symmetric] True by (simp add: run_Star_Cls[of P s])
  next
    case False
    then show ?thesis using Cons.hyps(2)[symmetric] by (simp add: run_Star_Cls[of P s])
  qed
qed

lemma star_then_first:
  assumes "\<And>t. K t \<noteq> []"
  shows "first_of (concat (map K (run (Star (Cls P)) s))) =
         first_of (K (advance (length (takeWhile P (rest s))) s))"
proof (induction "rest s" arbitrary: s)
  case Nil
  then show ?case by (simp add: run_Star_Cls[of P s])
next
  case (Cons c cs)
  show ?case
  proof (cases "P c")
    case True
    have r: "rest (advance 1 s) = cs" using Cons.hyps(2)[symmetric] by simp
    have ih: "first_of (concat (map K (run (Star (Cls P)) (advance 1 s)))) =
          first_of (K (advance (length (takeWhile P cs)) (advance 1 s)))"
      using Cons.hyps(1)[of "advance 1 s"] r by simp
    have ne: "first_of (K (advance (length (takeWhile P cs)) (advance 1 s))) \<noteq> None"
      using assms by simp
    show ?thesis
      using Cons.hyps(2)[symmetric] True ih ne
      by (auto simp add: run_Star_Cls[of P s] first_of_append split: option.splits)
  next
    case False
    then show ?thesis using Cons.hyps(2)[symmetric] by (simp add: run_Star_Cls[of P s])
  qed
qed

subsection \<open>The lazy capture in front of a lookahead\<close>

lemma take_scan_until: "take (length (scan_until p xs)) xs = scan_until p xs"
  by (induction xs) auto

lemma length_scan_until: "length (scan_until p xs) \<le> length xs"
  by (induction xs) auto

lemma ahead_stop:
  assumes stop_ok: "\<And>t. (run stop t = []) = (\<not> stopP (rest t))"
  shows "run (Ahead (Alt stop Eos)) t = (if stopP (rest t) \<or> rest t = [] then [t] else [])"
  by (simp add: stop_ok)

lemma lazy_ahead_gen:
  assumes A: "\<And>t. A t = (if stopP (rest t) \<or> rest t = [] then [t] else [])"
    and G: "\<And>t. G t = t\<lparr>cap := Some (take (length (rest s0) - length (rest t)) (rest s0))\<rparr>"
    and "s = advance j s0" and "j \<le> length (rest s0)"
  shows "first_of (concat (map A (map G (run (Lazy (Cls any_char)) s)))) =
         Some ((advance (j + length (scan_until stopP (rest s))) s0)
                 \<lparr>cap := Some (take (j + length (scan_until stopP (rest s))) (rest s0))\<rparr>)"
  using assms(3,4)
proof (induction "rest s" arbitrary: s j)
  case Nil
  have u: "run (Lazy (Cls any_char)) s = [s]"
    using Nil.hyps[symmetric] by (subst run_Lazy_Cls) simp
  have len: "length (rest s0) - length (rest s) = j"
    using Nil.prems by simp
  have "A (G s) = [G s]" using Nil.hyps[symmetric] by (simp add: A G)
  moreover have "G s = (advance j s0)\<lparr>cap := Some (take j (rest s0))\<rparr>"
    using len Nil.prems(1) by (simp add: G)
  ultimately show ?case
    unfolding u using Nil.hyps[symmetric] by simp
next
  case (Cons c cs)
  have rs: "rest s = c # cs" using Cons.hyps(2) by simp
  have len: "length (rest s0) - length (rest s) = j"
    using Cons.prems by simp
  have u: "run (Lazy (Cls any_char)) s = s # run (Lazy (Cls any_char)) (advance 1 s)"
    using rs by (subst run_Lazy_Cls) (simp add: any_char_def)
  have Gs: "G s = (advance j s0)\<lparr>cap := Some (take j (rest s0))\<rparr>"
    using len Cons.prems(1) by (simp add: G)
  show ?case
  proof (cases "stopP (c # cs)")
    case True
    have "A (G s) = [G s]" using True rs by (simp add: A G)
    then show ?thesis
      unfolding u using True rs Gs by simp
  next
    case False
    have r1: "cs = rest (advance 1 s)" using rs by simp
    have a1: "advance 1 s = advance (Suc j) s0" using Cons.prems by simp
    have j1: "Suc j \<le> length (rest s0)"
    proof -
      have "drop j (rest s0) \<noteq> []" using rs Cons.prems(1) by simp
      then show ?thesis by simp
    qed
    note ih = Cons.hyps(1)[OF r1 a1 j1]
    have "A (G s) = []" using False rs by (simp add: A G)
    then show ?thesis
      unfolding u using ih rs False r1[symmetric] by simp
  qed
qed

lemma lazy_ahead:
  assumes stop_ok: "\<And>t. (run stop t = []) = (\<not> stopP (rest t))"
  shows "first_of (run (Seq (Group (Lazy (Cls any_char))) (Ahead (Alt stop Eos))) s) =
         Some ((advance (length (scan_until stopP (rest s))) s)
                 \<lparr>cap := Some (scan_until stopP (rest s))\<rparr>)"
proof -
  have "first_of (concat (map (run (Ahead (Alt stop Eos)))
          (map (\<lambda>t. t\<lparr>cap := Some (take (length (rest s) - length (rest t)) (rest s))\<rparr>)
               (run (Lazy (Cls any_char)) s)))) =
        Some ((advance (0 + length (scan_until stopP (rest s))) s)
                 \<lparr>cap := Some (take (0 + length (scan_until stopP (rest s))) (rest s))\<rparr>)"
    by (rule lazy_ahead_gen[OF ahead_stop[OF stop_ok]]) simp_all
  then show ?thesis by (simp add: take_scan_until)
qed

subsection \<open>The heading patterns find the first heading\<close>

lemma drop_takeWhile_length: "drop (length (takeWhile P xs)) xs = dropWhile P xs"
  by (induction xs) auto

lemma not_prefix_space:
  assumes "name \<noteq> []" "\<not> is_space (hd name)" "is_space c"
  shows "\<not> prefix name (c # cs)"
  using assms by (cases name) auto

lemma run_Lit_blocked:
  assumes "name \<noteq> []" "\<not> is_space (hd name)" "rest t = c # cs" "is_space c"
  shows "run (Seq (Lit name) R) t = []"
  using not_prefix_space[OF assms(1,2,4), of cs] assms(3) by simp

lemma run_heading_gen:
  assumes tail_ok: "\<And>t. map_option f (first_of (run tail t)) = Some (g (rest t))"
    and name_ok: "name \<noteq> []" "\<not> is_space (hd name)"
  shows "map_option f (first_of (run (heading_rx h name tail) s)) =
         map_option (\<lambda>r. g (dropWhile is_space r)) (after_heading h name (rest s))"
proof (cases "prefix h (rest s)")
  case False
  then show ?thesis by (simp add: heading_rx_def after_heading_def)
next
  case True
  define R3 where "R3 = Seq (Star (Cls is_space)) tail"
  define R2 where "R2 = Seq (Lit name) R3"
  define s1 where "s1 = advance (length h) s"
  define s2 where "s2 = advance (length (takeWhile is_space (rest s1))) s1"
  have "rest s2 = dropWhile is_space (rest s1)"
    unfolding s2_def rest_advance by (rule drop_takeWhile_length)
  then have rest2: "rest s2 = dropWhile is_space (drop (length h) (rest s))"
    by (simp add: s1_def)
  have step1: "run (heading_rx h name tail) s = run (Seq (Star (Cls is_space)) R2) s1"
    using True by (simp add: heading_rx_def R2_def R3_def s1_def)
  have step2: "run (Seq (Star (Cls is_space)) R2) s1 = run R2 s2"
  proof -
    have "concat (map (run R2) (run (Star (Cls is_space)) s1)) = run R2 s2"
      unfolding s2_def
      by (rule star_then_blocked) (simp only: R2_def run_Lit_blocked[OF name_ok])
    then show ?thesis by simp
  qed
  have step: "run (heading_rx h name tail) s = run R2 s2"
    using step1 step2 by (simp only:)
  show ?thesis
  proof (cases "prefix name (rest s2)")
    case False
    then have "run R2 s2 = []" by (simp add: R2_def)
    then show ?thesis
      using True False rest2 by (simp add: step after_heading_def)
  next
    case pn: True
    define s3 where "s3 = advance (length name) s2"
    define s4 where "s4 = advance (length (takeWhile is_space (rest s3))) s3"
    have rest4: "rest s4 = dropWhile is_space (rest s3)"
      unfolding s4_def rest_advance by (rule drop_takeWhile_length)
    have ne: "run tail t \<noteq> []" for t
    proof
      assume "run tail t = []"
      then have "map_option f (first_of (run tail t)) = None" by simp
      then show False using tail_ok[of t] by simp
    qed
    have "run R2 s2 = run R3 s3" using pn by (simp add: R2_def s3_def)
    moreover have "first_of (run R3 s3) = first_of (run tail s4)"
    proof -
      have "first_of (concat (map (run tail) (run (Star (Cls is_space)) s3))) =
            first_of (run tail s4)"
        unfolding s4_def by (rule star_then_first) (rule ne)
      then show ?thesis by (simp add: R3_def)
    qed
    ultimately have "map_option f (first_of (run (heading_rx h name tail) s)) =
        Some (g (dropWhile is_space (rest s3)))"
      using tail_ok[of s4] by (simp add: step rest4)
    moreover have "after_heading h name (rest s) = Some (rest s3)"
      using True pn rest2 by (simp add: after_heading_def s3_def Let_def)
    ultimately show ?thesis by simp
  qed
qed

lemma run_heading:
  assumes tail_ok: "\<And>t. map_option cap (first_of (run tail t)) = Some (Some (body (rest t)))"
    and name_ok: "name \<noteq> []" "\<not> is_space (hd name)"
  shows "map_option cap (first_of (run (heading_rx h name tail) s)) =
         map_option (\<lambda>r. Some (body (dropWhile is_space r)))
           (after_heading h name (rest s))"
  by (rule run_heading_gen[where f = cap and g = "\<lambda>r. Some (body r)", OF tail_ok name_ok])

lemma exec_at_first:
  "exec_at r bef rst =
     map_option (\<lambda>t. \<lparr>m_index = length bef,
                        m_whole = take (length rst - length (rest t)) rst,
                        m_group1 = cap t\<rparr>)
       (first_of (run r \<lparr>passed = bef, rest = rst, cap = None\<rparr>))"
  by (simp add: exec_at_def first_of_def split: list.splits)

lemma exec_at_index: "exec_at r bef rst = Some m \<Longrightarrow> m_index m = length bef"
  by (auto simp: exec_at_first)

lemma exec_heading:
  assumes tail_ok: "\<And>t. map_option cap (first_of (run tail t)) = Some (Some (body (rest t)))"
    and name_ok: "name \<noteq> []" "\<not> is_space (hd name)"
  shows "map_option (\<lambda>m. (m_index m, m_group1 m)) (exec_at (heading_rx h name tail) bef rst) =
         map_option (\<lambda>r. (length bef, Some (body (dropWhile is_space r))))
           (after_heading h name rst)"
proof -
  have "map_option cap (first_of (run (heading_rx h name tail)
            \<lparr>passed = bef, rest = rst, cap = None\<rparr>)) =
        map_option (\<lambda>r. Some (body (dropWhile is_space r)))
           (after_heading h name rst)"
    using run_heading[OF assms, of h "\<lparr>passed = bef, rest = rst, cap = None\<rparr>"] by simp
  then show ?thesis
    by (cases "after_heading h name rst";
        cases "first_of (run (heading_rx h name tail) \<lparr>passed = bef, rest = rst, cap = None\<rparr>)")
       (simp_all add: exec_at_first)
qed

lemma search_heading:
  assumes tail_ok: "\<And>t. map_option cap (first_of (run tail t)) = Some (Some (body (rest t)))"
    and name_ok: "name \<noteq> []" "\<not> is_space (hd name)"
  shows "map_option (\<lambda>m. (m_index m, m_group1 m)) (search (heading_rx h name tail) bef rst) =
         map_option (\<lambda>(i, r). (length bef + i, Some (body (dropWhile is_space r))))
           (find_heading h name rst)"
proof (induction rst arbitrary: bef)
  case Nil
  show ?case
    using exec_heading[OF assms, of h bef "[]"]
    by (cases "after_heading h name []") simp_all
next
  case (Cons c cs)
  show ?case
  proof (cases "after_heading h name (c # cs)")
    case None
    then have "exec_at (heading_rx h name tail) bef (c # cs) = None"
      using exec_heading[OF assms, of h bef "c # cs"] by simp
    then show ?thesis
      using None Cons.IH[of "c # bef"]
      by (cases "find_heading h name cs") (auto simp: option.map_comp comp_def)
  next
    case (Some r)
    then obtain m where "exec_at (heading_rx h name tail) bef (c # cs) = Some m"
      and "m_index m = length bef"
      and "m_group1 m = Some (body (dropWhile is_space r))"
      using exec_heading[OF assms, of h bef "c # cs"] by auto
    then show ?thesis using Some by simp
  qed
qed

lemma js_match_heading:
  assumes tail_ok: "\<And>t. map_option cap (first_of (run tail t)) = Some (Some (body (rest t)))"
    and name_ok: "name \<noteq> []" "\<not> is_space (hd name)"
  shows "map_option m_group1 (js_match (heading_rx h name tail) text) =
         map_option Some (heading_body h name body text)"
proof -
  have "map_option snd (map_option (\<lambda>m. (m_index m, m_group1 m))
          (search (heading_rx h name tail) [] text)) =
        map_option snd (map_option (\<lambda>(i, r). (length ([]::jsstring) + i,
            Some (body (dropWhile is_space r)))) (find_heading h name text))"
    by (simp only: search_heading[OF assms])
  then show ?thesis
    by (simp add: js_match_def heading_body_def option.map_comp comp_def case_prod_unfold)
qed

lemma section_tail:
  assumes stop_ok: "\<And>t. (run stop t = []) = (\<not> stopP (rest t))"
  shows "map_option cap (first_of (run (Seq (Group (Lazy (Cls any_char))) (Ahead (Alt stop Eos))) t)) =
         Some (Some (scan_until stopP (rest t)))"
  by (simp only: lazy_ahead[OF stop_ok]) simp

lemma js_match_section:
  assumes stop_ok: "\<And>t. (run stop t = []) = (\<not> stopP (rest t))"
    and name_ok: "name \<noteq> []" "\<not> is_space (hd name)"
  shows "map_option m_group1 (js_match (section_rx h name stop) text) =
         map_option Some (section_body h name stopP text)"
  unfolding section_rx_def section_body_def
  by (rule js_match_heading[OF section_tail[OF stop_ok] name_ok])

lemma greedy_first:
  "first_of (run (Star (Cls any_char)) s) = Some (advance (length (rest s)) s)"
proof (induction "rest s" arbitrary: s)
  case Nil
  then show ?case by (subst run_Star_Cls) (simp add: Nil.hyps[symmetric])
next
  case (Cons c cs)
  have rs: "rest s = c # cs" using Cons.hyps(2) by simp
  have r1: "cs = rest (advance 1 s)" using rs by simp
  have u: "run (Star (Cls any_char)) s = run (Star (Cls any_char)) (advance 1 s) @ [s]"
    using rs by (subst run_Star_Cls) (simp add: any_char_def)
  have "first_of (run (Star (Cls any_char)) (advance 1 s)) =
        Some (advance (length cs) (advance 1 s))"
    using Cons.hyps(1)[OF r1] r1 by simp
  then show ?case
    unfolding u using rs by (simp add: first_of_append)
qed

lemma reasoning_tail:
  "map_option cap (first_of (run (Group (Star (Cls any_char))) t)) = Some (Some (rest t))"
proof -
  have "first_of (run (Star (Cls any_char)) t) = Some (advance (length (rest t)) t)"
    by (rule greedy_first)
  then show ?thesis
    by (cases "run (Star (Cls any_char)) t") simp_all
qed

subsection \<open>The patterns of the extractor, one by one\<close>

lemma run_lit_space_lit:
  assumes "b \<noteq> []" "\<not> is_space (hd b)"
  shows "(run (Seq (Lit a) (Seq (Star (Cls is_space)) (Lit b))) t = []) =
         (\<not> (prefix a (rest t) \<and> prefix b (dropWhile is_space (drop (length a) (rest t)))))"
proof (cases "prefix a (rest t)")
  case False
  then show ?thesis by simp
next
  case True
  define t1 where "t1 = advance (length a) t"
  have blocked: "\<And>u c cs. rest u = c # cs \<Longrightarrow> is_space c \<Longrightarrow> run (Lit b) u = []"
    using not_prefix_space[OF assms] by simp
  have "concat (map (run (Lit b)) (run (Star (Cls is_space)) t1)) =
        run (Lit b) (advance (length (takeWhile is_space (rest t1))) t1)"
    by (rule star_then_blocked) (rule blocked)
  moreover have "rest (advance (length (takeWhile is_space (rest t1))) t1) =
        dropWhile is_space (drop (length a) (rest t))"
    unfolding rest_advance drop_takeWhile_length by (simp add: t1_def)
  ultimately show ?thesis
    using True by (simp add: t1_def[symmetric])
qed

lemma js_simps:
  "js [] = []" "js (c # cs) = of_char c # js cs"
  by (simp_all add: js_def)

lemma stop_level2: "(run (Lit (nl # js ''##'')) t = []) = (\<not> level2_stop (rest t))"
  by (simp add: level2_stop_def)

lemma name_ok:
  "js ''Overall Assessment'' \<noteq> []" "\<not> is_space (hd (js ''Overall Assessment''))"
  "js ''Price Analysis'' \<noteq> []" "\<not> is_space (hd (js ''Price Analysis''))"
  "js ''Suggested SEO Tags (13)'' \<noteq> []" "\<not> is_space (hd (js ''Suggested SEO Tags (13)''))"
  "js ''Actionable Recommendations'' \<noteq> []" "\<not> is_space (hd (js ''Actionable Recommendations''))"
  "js ''Suggestion:'' \<noteq> []" "\<not> is_space (hd (js ''Suggestion:''))"
  "js ''Reasoning:'' \<noteq> []" "\<not> is_space (hd (js ''Reasoning:''))"
  "js ''Suggested SEO Tags'' \<noteq> []" "\<not> is_space (hd (js ''Suggested SEO Tags''))"
  "js ''Element:'' \<noteq> []" "\<not> is_space (hd (js ''Element:''))"
  by (simp_all add: js_simps is_space_def is_line_terminator_def)

lemma stop_lengths:
  "length (nl # js ''##'') = 3" "length (nl # js ''####'') = 5"
  by (simp_all add: js_simps)

lemma stop_tags:
  "(run (Seq (Lit (nl # js ''##'')) (Seq (Star (Cls is_space)) (Lit (js ''Suggested SEO Tags'')))) t = [])
     = (\<not> tags_stop (rest t))"
  unfolding run_lit_space_lit[OF name_ok(13,14)] tags_stop_def stop_lengths by (rule refl)

lemma stop_reasoning:
  "(run (Seq (Lit (nl # js ''####'')) (Seq (Star (Cls is_space)) (Lit (js ''Reasoning:'')))) t = [])
     = (\<not> reasoning_stop (rest t))"
  unfolding run_lit_space_lit[OF name_ok(11,12)] reasoning_stop_def stop_lengths by (rule refl)

lemma rx_shapes:
  "assessment_rx = section_rx (js ''##'') (js ''Overall Assessment'') (Lit (nl # js ''##''))"
  "price_rx = section_rx (js ''##'') (js ''Price Analysis'') (Lit (nl # js ''##''))"
  "tags_rx = section_rx (js ''##'') (js ''Suggested SEO Tags (13)'') (Lit (nl # js ''##''))"
  "recommendations_rx = section_rx (js ''##'') (js ''Actionable Recommendations'')
     (Seq (Lit (nl # js ''##'')) (Seq (Star (Cls is_space)) (Lit (js ''Suggested SEO Tags''))))"
  "suggestion_rx = section_rx (js ''####'') (js ''Suggestion:'')
     (Seq (Lit (nl # js ''####'')) (Seq (Star (Cls is_space)) (Lit (js ''Reasoning:''))))"
  "reasoning_rx = heading_rx (js ''####'') (js ''Reasoning:'') (Group (Star (Cls any_char)))"
  "element_rx = Seq Bol (heading_rx (js ''###'') (js ''Element:'')
     (Group (Star (Cls (\<lambda>c. \<not> is_line_terminator c)))))"
  by (simp_all only: assessment_rx_def price_rx_def tags_rx_def recommendations_rx_def
        suggestion_rx_def reasoning_rx_def element_rx_def section_rx_def heading_rx_def)

lemma match_assessment:
  "map_option m_group1 (js_match assessment_rx text) =
   map_option Some (section_body (js ''##'') (js ''Overall Assessment'') level2_stop text)"
  unfolding rx_shapes by (rule js_match_section[OF stop_level2 name_ok(1,2)])

lemma match_price:
  "map_option m_group1 (js_match price_rx text) =
   map_option Some (section_body (js ''##'') (js ''Price Analysis'') level2_stop text)"
  unfolding rx_shapes by (rule js_match_section[OF stop_level2 name_ok(3,4)])

lemma match_tags:
  "map_option m_group1 (js_match tags_rx text) =
   map_option Some (section_body (js ''##'') (js ''Suggested SEO Tags (13)'') level2_stop text)"
  unfolding rx_shapes by (rule js_match_section[OF stop_level2 name_ok(5,6)])

lemma match_recommendations:
  "map_option m_group1 (js_match recommendations_rx text) =
   map_option Some (section_body (js ''##'') (js ''Actionable Recommendations'') tags_stop text)"
  unfolding rx_shapes by (rule js_match_section[OF stop_tags name_ok(7,8)])

lemma match_suggestion:
  "map_option m_group1 (js_match suggestion_rx text) =
   map_option Some (section_body (js ''####'') (js ''Suggestion:'') reasoning_stop text)"
  unfolding rx_shapes by (rule js_match_section[OF stop_reasoning name_ok(9,10)])

lemma match_reasoning:
  "map_option m_group1 (js_match reasoning_rx text) =
   map_option Some (heading_body (js ''####'') (js ''Reasoning:'') (\<lambda>r. r) text)"
  unfolding rx_shapes by (rule js_match_heading[OF reasoning_tail name_ok(11,12)])

subsection \<open>Group 1 is always set: no \<^verbatim>\<open>TypeError\<close>\<close>

lemma run_cap_kept: "t \<in> set (run r s) \<Longrightarrow> cap s \<noteq> None \<Longrightarrow> cap t \<noteq> None"
proof (induction r s arbitrary: t rule: run.induct)
  case (5 a s)
  then show ?case
    by (subst (asm) run.simps(5)) (auto split: if_splits)
next
  case (6 a s)
  then show ?case
    by (subst (asm) run.simps(6)) (auto split: if_splits)
qed (auto simp: advance_def split: if_splits list.splits)

lemma run_captures: "captures r \<Longrightarrow> t \<in> set (run r s) \<Longrightarrow> cap t \<noteq> None"
proof (induction r arbitrary: s t)
  case (Seq a b)
  from Seq.prems(2) obtain u where u: "u \<in> set (run a s)" "t \<in> set (run b u)" by auto
  show ?case
  proof (cases "captures b")
    case True
    then show ?thesis using Seq.IH(2) u by blast
  next
    case False
    then have "captures a" using Seq.prems(1) by simp
    then have "cap u \<noteq> None" using Seq.IH(1) u by blast
    then show ?thesis using run_cap_kept u by blast
  qed
qed auto

lemma exec_at_captures:
  "captures r \<Longrightarrow> exec_at r bef rst = Some m \<Longrightarrow> m_group1 m \<noteq> None"
  using run_captures[of r _ "\<lparr>passed = bef, rest = rst, cap = None\<rparr>"]
  by (auto simp: exec_at_def split: list.splits)

lemma search_captures:
  "captures r \<Longrightarrow> search r bef rst = Some m \<Longrightarrow> m_group1 m \<noteq> None"
  by (induction rst arbitrary: bef) (auto split: option.splits dest: exec_at_captures)

lemma match_all_from_captures:
  "captures r \<Longrightarrow> m \<in> set (match_all_from r inp k) \<Longrightarrow> m_group1 m \<noteq> None"
proof (induction r inp k rule: match_all_from.induct)
  case (1 r inp k)
  show ?case
  proof (cases "search r (rev (take k inp)) (drop k inp)")
    case None
    then show ?thesis using "1.prems"(2)
      by (auto simp: match_all_from.simps[of r inp k] split: if_splits)
  next
    case (Some m')
    have ge: "\<not> length inp < k"
      using "1.prems"(2) by (auto simp: match_all_from.simps[of r inp k])
    define k' where "k' = (if m_whole m' = [] then m_index m' + length (m_whole m') + 1
                           else m_index m' + length (m_whole m'))"
    have unf: "match_all_from r inp k =
                 m' # (if k < k' then match_all_from r inp k' else [])"
      using Some ge by (simp add: match_all_from.simps[of r inp k] k'_def Let_def)
    show ?thesis
    proof (cases "m = m'")
      case True
      then show ?thesis using search_captures[OF "1.prems"(1) Some] by simp
    next
      case False
      then have lt: "k < k'" and mem: "m \<in> set (match_all_from r inp k')"
        using "1.prems"(2) unfolding unf by (auto split: if_splits)
      show ?thesis
        by (rule "1.IH"[OF ge Some refl, of k']) (use lt mem "1.prems"(1) in \<open>simp_all add: k'_def\<close>)
    qed
  qed
qed

lemma captures_element: "captures element_rx"
  by (simp add: element_rx_def)

declare match_all_from.simps [simp del]
declare split_loop.simps [simp del]

subsection \<open>The extractor in terms of the scanners\<close>

lemma group1_of_match:
  assumes "map_option m_group1 mo = map_option Some bo"
  shows "trimmed_group_or_empty mo = Inr (case bo of None \<Rightarrow> [] | Some b \<Rightarrow> trim b)"
  using assms
  by (cases mo; cases bo)
     (simp_all add: trimmed_group_or_empty_def group1_trim_def group1_def and_then_def)

lemma trim_dropWhile: "trim (dropWhile is_space r) = trim r"
  by (simp add: trim_def)

lemma suggestion_of_chunk:
  "trimmed_group_or_empty (js_match suggestion_rx chunk) = Inr (chunk_suggestion chunk)"
  unfolding group1_of_match[OF match_suggestion]
  by (simp add: chunk_suggestion_def section_body_def heading_body_def split: option.splits)

lemma reasoning_of_chunk:
  "trimmed_group_or_empty (js_match reasoning_rx chunk) = Inr (chunk_reasoning chunk)"
  unfolding group1_of_match[OF match_reasoning]
  by (simp add: chunk_reasoning_def heading_body_def trim_dropWhile split: option.splits)

lemma element_callback_eq:
  assumes "m_group1 (ms ! i) \<noteq> None"
  shows "element_callback body ms i (ms ! i) recs =
         Inr (if contributes (block_of body ms i) then recs @ [block_of body ms i] else recs)"
proof -
  obtain g where g: "m_group1 (ms ! i) = Some g" using assms by auto
  have "group1_trim (ms ! i) = Inr (trim g)"
    by (simp add: group1_trim_def group1_def and_then_def g)
  then show ?thesis
    by (simp add: element_callback_def and_then_def Let_def suggestion_of_chunk
          reasoning_of_chunk contributes_def block_of_def block_chunk_def block_label_def g)
qed

lemma for_each_blocks:
  assumes "\<forall>m\<in>set ms. m_group1 m \<noteq> None"
  shows "i \<le> length ms \<Longrightarrow>
         for_each (element_callback body ms) i (drop i ms) recs =
         Inr (recs @ filter contributes (map (block_of body ms) [i..<length ms]))"
proof (induction "length ms - i" arbitrary: i recs)
  case 0
  then show ?case by simp
next
  case (Suc n)
  then have lt: "i < length ms" by simp
  have d: "drop i ms = ms ! i # drop (Suc i) ms"
    using lt by (simp add: Cons_nth_drop_Suc)
  have g: "m_group1 (ms ! i) \<noteq> None" using assms lt by simp
  have n: "n = length ms - Suc i" using Suc.hyps(2) by simp
  have ih: "\<And>recs. for_each (element_callback body ms) (Suc i) (drop (Suc i) ms) recs =
         Inr (recs @ filter contributes (map (block_of body ms) [Suc i..<length ms]))"
    using Suc.hyps(1)[OF n] lt by simp
  show ?case
    unfolding d using lt
    by (simp add: element_callback_eq[OF g] and_then_def ih upt_conv_Cons)
qed

lemma parse_recommendations_eq:
  "parse_recommendations body recs = Inr (recs @ filter contributes (element_blocks body))"
proof -
  have "\<forall>m\<in>set (match_all element_rx body). m_group1 m \<noteq> None"
    unfolding match_all_def using match_all_from_captures[OF captures_element] by blast
  from for_each_blocks[OF this, of 0 body recs] show ?thesis
    by (simp add: parse_recommendations_def element_blocks_def Let_def)
qed

lemma read_section:
  assumes "map_option m_group1 mo = map_option Some bo"
  shows "(case mo of None \<Rightarrow> Inr a | Some m \<Rightarrow> and_then (group1 m) (\<lambda>b. Inr (f b))) =
         Inr (case bo of None \<Rightarrow> a | Some b \<Rightarrow> f b)"
  using assms by (cases mo; cases bo) (simp_all add: group1_def and_then_def)

lemma read_assessment_eq:
  "read_assessment text a =
     Inr (case section_body (js ''##'') (js ''Overall Assessment'') level2_stop text of
            None \<Rightarrow> a | Some b \<Rightarrow> a\<lparr>overall_assessment := trim b\<rparr>)"
  using read_section[OF match_assessment, of a "\<lambda>b. a\<lparr>overall_assessment := trim b\<rparr>" "text"]
  by (simp add: read_assessment_def group1_trim_def and_then_def split: option.splits sum.splits)

lemma read_price_eq:
  "read_price text a =
     Inr (case section_body (js ''##'') (js ''Price Analysis'') level2_stop text of
            None \<Rightarrow> a | Some b \<Rightarrow> a\<lparr>price_analysis := trim b\<rparr>)"
  using read_section[OF match_price, of a "\<lambda>b. a\<lparr>price_analysis := trim b\<rparr>" "text"]
  by (simp add: read_price_def group1_trim_def and_then_def split: option.splits sum.splits)

lemma read_tags_eq:
  "read_tags text a =
     Inr (case section_body (js ''##'') (js ''Suggested SEO Tags (13)'') level2_stop text of
            None \<Rightarrow> a | Some b \<Rightarrow> a\<lparr>suggested_keywords := keywords_of b\<rparr>)"
  using read_section[OF match_tags, of a "\<lambda>b. a\<lparr>suggested_keywords := keywords_of b\<rparr>" "text"]
  by (simp add: read_tags_def)

lemma read_recommendations_eq:
  "read_recommendations text a =
     Inr (case section_body (js ''##'') (js ''Actionable Recommendations'') tags_stop text of
            None \<Rightarrow> a
          | Some b \<Rightarrow> a\<lparr>recommendations := recommendations a @ filter contributes (element_blocks b)\<rparr>)"
proof -
  have e: "\<And>b. and_then (parse_recommendations b (recommendations a))
                   (\<lambda>recs. Inr (a\<lparr>recommendations := recs\<rparr>)) =
           Inr (a\<lparr>recommendations := recommendations a @ filter contributes (element_blocks b)\<rparr>)"
    by (simp add: parse_recommendations_eq and_then_def)
  show ?thesis
    unfolding read_recommendations_def e by (rule read_section[OF match_recommendations])
qed

lemma parse_eq:
  "parseAnalysisFromText text =
     Inr \<lparr>overall_assessment =
            (case section_body (js ''##'') (js ''Overall Assessment'') level2_stop text of
               None \<Rightarrow> [] | Some b \<Rightarrow> trim b),
          price_analysis =
            (case section_body (js ''##'') (js ''Price Analysis'') level2_stop text of
               None \<Rightarrow> [] | Some b \<Rightarrow> trim b),
          recommendations =
            (case section_body (js ''##'') (js ''Actionable Recommendations'') tags_stop text of
               None \<Rightarrow> [] | Some b \<Rightarrow> filter contributes (element_blocks b)),
          suggested_keywords =
            (case section_body (js ''##'') (js ''Suggested SEO Tags (13)'') level2_stop text of
               None \<Rightarrow> [] | Some b \<Rightarrow> keywords_of b)\<rparr>"
  by (simp add: parseAnalysisFromText_def read_assessment_eq read_price_eq read_tags_eq
        read_recommendations_eq and_then_def split: option.splits)

subsection \<open>Headings without a scanner\<close>

lemma dropWhile_spaces_name:
  assumes "name \<noteq> []" "\<not> is_space (hd name)" "\<forall>c\<in>set w. is_space c"
  shows "dropWhile is_space (w @ name @ r) = name @ r"
proof -
  have "dropWhile is_space (name @ r) = name @ r"
    using assms(1,2) by (cases name) simp_all
  then show ?thesis using assms(3) by (simp add: dropWhile_append2)
qed

lemma after_heading_iff:
  assumes "name \<noteq> []" "\<not> is_space (hd name)"
  shows "(after_heading h name s \<noteq> None) = heading_at h name s"
proof
  assume "after_heading h name s \<noteq> None"
  then have p: "prefix h s" and q: "prefix name (dropWhile is_space (drop (length h) s))"
    by (auto simp: after_heading_def Let_def split: if_splits)
  from p obtain s' where s': "s = h @ s'" by (auto simp: prefix_def)
  from q obtain r where r: "dropWhile is_space s' = name @ r" using s' by (auto simp: prefix_def)
  have "s' = takeWhile is_space s' @ name @ r"
    using takeWhile_dropWhile_id[of is_space s'] r by simp
  moreover have "\<forall>c\<in>set (takeWhile is_space s'). is_space c"
    by (auto dest: set_takeWhileD)
  ultimately show "heading_at h name s"
    unfolding heading_at_def using s' by blast
next
  assume "heading_at h name s"
  then obtain w r where s: "s = h @ w @ name @ r" and w: "\<forall>c\<in>set w. is_space c"
    by (auto simp: heading_at_def)
  show "after_heading h name s \<noteq> None"
    using dropWhile_spaces_name[OF assms w, of r] by (simp add: after_heading_def s)
qed

lemma contains_heading_Nil: "contains_heading h name [] = heading_at h name []"
  by (auto simp: contains_heading_def)

lemma contains_heading_Cons:
  "contains_heading h name (c # cs) = (heading_at h name (c # cs) \<or> contains_heading h name cs)"
proof
  assume "contains_heading h name (c # cs)"
  then obtain pre s where ps: "c # cs = pre @ s" and hs: "heading_at h name s"
    by (auto simp: contains_heading_def)
  show "heading_at h name (c # cs) \<or> contains_heading h name cs"
  proof (cases pre)
    case Nil
    then show ?thesis using ps hs by simp
  next
    case (Cons p pre')
    then have "cs = pre' @ s" using ps by simp
    then show ?thesis using hs by (auto simp: contains_heading_def)
  qed
next
  assume "heading_at h name (c # cs) \<or> contains_heading h name cs"
  then show "contains_heading h name (c # cs)"
  proof
    assume "heading_at h name (c # cs)"
    then show ?thesis unfolding contains_heading_def by (metis append_Nil)
  next
    assume "contains_heading h name cs"
    then obtain pre s where "cs = pre @ s" "heading_at h name s"
      by (auto simp: contains_heading_def)
    then have "c # cs = (c # pre) @ s" by simp
    then show ?thesis unfolding contains_heading_def using \<open>heading_at h name s\<close> by blast
  qed
qed

lemma find_heading_None_iff:
  assumes "name \<noteq> []" "\<not> is_space (hd name)"
  shows "(find_heading h name s = None) = (\<not> contains_heading h name s)"
proof (induction s)
  case Nil
  show ?case
    using after_heading_iff[OF assms, of h "[]"]
    by (cases "after_heading h name []") (simp_all add: contains_heading_Nil)
next
  case (Cons c cs)
  show ?case
    using after_heading_iff[OF assms, of h "c # cs"] Cons.IH
    by (cases "after_heading h name (c # cs)") (simp_all add: contains_heading_Cons)
qed

lemma section_body_None_iff:
  assumes "name \<noteq> []" "\<not> is_space (hd name)"
  shows "(section_body h name stopP s = None) = (\<not> contains_heading h name s)"
  by (simp add: section_body_def heading_body_def find_heading_None_iff[OF assms])

lemma find_heading_Some_iff:
  "(find_heading h name s = Some (i, r)) =
   (i \<le> length s \<and> after_heading h name (drop i s) = Some r \<and>
    (\<forall>j<i. after_heading h name (drop j s) = None))"
proof (induction s arbitrary: i)
  case Nil
  show ?case by (cases "after_heading h name []") auto
next
  case (Cons c cs)
  show ?case
  proof (cases "after_heading h name (c # cs)")
    case (Some r')
    show ?thesis
    proof (cases i)
      case 0
      then show ?thesis using Some by auto
    next
      case (Suc i')
      have "\<not> (\<forall>j<i. after_heading h name (drop j (c # cs)) = None)"
        using Some Suc by (metis drop0 option.distinct(1) zero_less_Suc)
      then show ?thesis using Some Suc by simp
    qed
  next
    case None
    show ?thesis
    proof (cases i)
      case 0
      then show ?thesis using None by (auto split: option.splits)
    next
      case (Suc i')
      have "(\<forall>j<Suc i'. after_heading h name (drop j (c # cs)) = None) =
            (\<forall>j<i'. after_heading h name (drop j cs) = None)"
        using None by (auto simp: less_Suc_eq_0_disj)
      then show ?thesis
        using None Suc Cons.IH[of i'] by (auto split: option.splits)
    qed
  qed
qed

subsection \<open>The keywords\<close>

lemma search_Bos_passed:
  "bef \<noteq> [] \<Longrightarrow> search (Seq Bos r) bef rst = None"
  by (induction rst arbitrary: bef) (simp_all add: exec_at_def)

lemma substring_0: "substring 0 n s = take n s"
  by (simp add: substring_def Let_def min_def)

lemma substring_to_end: "substring k (length s) s = drop k s"
  by (simp add: substring_def Let_def min_def max_def)

lemma replace_first_hyphen: "replace_first hyphen_rx (\<lambda>m. []) kw = strip_hyphen kw"
proof (cases kw)
  case Nil
  then show ?thesis
    by (simp add: replace_first_def js_match_def hyphen_rx_def exec_at_def strip_hyphen_def
          js_simps)
next
  case (Cons c cs)
  show ?thesis
  proof (cases "c = 0x002D")
    case True
    then show ?thesis
      using Cons
      by (simp add: replace_first_def js_match_def hyphen_rx_def exec_at_def strip_hyphen_def
            js_simps substring_def advance_def)
  next
    case False
    have "exec_at (Seq Bos (Lit (js ''-''))) [] (c # cs) = None"
      using False by (simp add: exec_at_def js_simps)
    then show ?thesis
      using Cons False
      by (simp add: replace_first_def js_match_def hyphen_rx_def strip_hyphen_def
            search_Bos_passed)
  qed
qed

lemma keywords_of_spec: "keywords_of body = spec_keywords (split_char nl body)"
proof -
  have "map (\<lambda>kw. substring 0 20 kw)
          (filter (\<lambda>kw. kw \<noteq> []) (map (\<lambda>kw. trim (replace_first hyphen_rx (\<lambda>m. []) kw)) ls)) =
        spec_keywords ls" for ls
    by (induction ls) (simp_all add: replace_first_hyphen substring_0 Let_def)
  then show ?thesis by (simp add: keywords_of_def)
qed

lemma spec_keywords_length: "k \<in> set (spec_keywords ls) \<Longrightarrow> length k \<le> 20"
  by (induction ls) (auto simp: Let_def split: if_splits)

lemma spec_keywords_subseq:
  "subseq (spec_keywords ls) (map (\<lambda>l. take 20 (trim (strip_hyphen l))) ls)"
  by (induction ls) (auto simp: Let_def)

subsection \<open>The matches of a global pattern, from left to right\<close>

lemma search_index_ge: "search r bef rst = Some m \<Longrightarrow> length bef \<le> m_index m"
proof (induction rst arbitrary: bef)
  case Nil
  then show ?case by (simp add: exec_at_index)
next
  case (Cons c cs)
  show ?case
  proof (cases "exec_at r bef (c # cs)")
    case None
    then have "search r (c # bef) cs = Some m" using Cons.prems by simp
    from Cons.IH[OF this] show ?thesis by simp
  next
    case (Some m')
    then have "m' = m" using Cons.prems by simp
    then show ?thesis using exec_at_index[OF Some] by simp
  qed
qed

lemma match_all_from_unfold:
  assumes "search r (rev (take k inp)) (drop k inp) = Some m" "k \<le> length inp"
  shows "match_all_from r inp k =
           m # match_all_from r inp
                 (if m_whole m = [] then m_index m + length (m_whole m) + 1
                  else m_index m + length (m_whole m))"
proof -
  have "k \<le> m_index m" using search_index_ge[OF assms(1)] assms(2) by simp
  then have "k < (if m_whole m = [] then m_index m + length (m_whole m) + 1
                  else m_index m + length (m_whole m))"
    by (cases "m_whole m") simp_all
  then show ?thesis
    using assms by (subst match_all_from.simps) (simp add: Let_def)
qed

lemma match_all_from_ordered:
  "(\<forall>m\<in>set (match_all_from r inp k). k \<le> m_index m) \<and>
   sorted_wrt (\<lambda>a b. m_index a < m_index b \<and> m_index a + length (m_whole a) \<le> m_index b)
     (match_all_from r inp k)"
proof (induction r inp k rule: match_all_from.induct)
  case (1 r inp k)
  show ?case
  proof (cases "length inp < k")
    case True
    then show ?thesis by (subst (1 2) match_all_from.simps) simp
  next
    case False
    show ?thesis
    proof (cases "search r (rev (take k inp)) (drop k inp)")
      case None
      then show ?thesis using False by (subst (1 2) match_all_from.simps) simp
    next
      case (Some m)
      define k' where "k' = (if m_whole m = [] then m_index m + length (m_whole m) + 1
                  else m_index m + length (m_whole m))"
      have ge: "k \<le> m_index m" using search_index_ge[OF Some] False by simp
      have lt: "k < k'" using ge unfolding k'_def by (cases "m_whole m") simp_all
      have unf: "match_all_from r inp k = m # match_all_from r inp k'"
        using match_all_from_unfold[OF Some] False unfolding k'_def by simp
      have ih: "(\<forall>x\<in>set (match_all_from r inp k'). k' \<le> m_index x) \<and>
         sorted_wrt (\<lambda>a b. m_index a < m_index b \<and> m_index a + length (m_whole a) \<le> m_index b)
           (match_all_from r inp k')"
        by (rule "1.IH"[OF False Some refl, of k']) (use lt in \<open>simp_all add: k'_def\<close>)
      have "\<forall>x\<in>set (match_all_from r inp k').
              m_index m < m_index x \<and> m_index m + length (m_whole m) \<le> m_index x"
      proof
        fix x assume "x \<in> set (match_all_from r inp k')"
        then have "k' \<le> m_index x" using ih by blast
        then show "m_index m < m_index x \<and> m_index m + length (m_whole m) \<le> m_index x"
          unfolding k'_def by (cases "m_whole m") (auto split: if_splits)
      qed
      moreover have "\<forall>x\<in>set (match_all_from r inp k'). k \<le> m_index x"
        using ih lt by fastforce
      ultimately show ?thesis
        unfolding unf using ih ge by simp
    qed
  qed
qed

subsection \<open>First occurrence, and markers at line starts\<close>

lemma find_heading_at_iff:
  assumes "name \<noteq> []" "\<not> is_space (hd name)"
  shows "(\<exists>r. find_heading h name s = Some (i, r)) =
         (i \<le> length s \<and> heading_at h name (drop i s) \<and>
          (\<forall>j<i. \<not> heading_at h name (drop j s)))"
proof -
  have a: "\<And>u. heading_at h name u = (after_heading h name u \<noteq> None)"
    using after_heading_iff[OF assms] by simp
  show ?thesis
    unfolding find_heading_Some_iff a by auto
qed

lemma js_match_section_index:
  assumes stop_ok: "\<And>t. (run stop t = []) = (\<not> stopP (rest t))"
    and name_ok: "name \<noteq> []" "\<not> is_space (hd name)"
  shows "(\<exists>m. js_match (section_rx h name stop) s = Some m \<and> m_index m = i) =
         (\<exists>r. find_heading h name s = Some (i, r))"
proof -
  have e: "map_option (\<lambda>m. (m_index m, m_group1 m)) (search (section_rx h name stop) [] s) =
         map_option (\<lambda>(i, r). (length ([]::jsstring) + i,
             Some (scan_until stopP (dropWhile is_space r)))) (find_heading h name s)"
    unfolding section_rx_def
    by (rule search_heading[OF section_tail[OF stop_ok] name_ok])
  show ?thesis
  proof (cases "find_heading h name s")
    case None
    then show ?thesis using e by (simp add: js_match_def)
  next
    case (Some p)
    obtain i' r' where p: "p = (i', r')" by (cases p)
    from e Some p obtain m where "search (section_rx h name stop) [] s = Some m"
      and "m_index m = i'" by auto
    then show ?thesis using Some p by (auto simp: js_match_def)
  qed
qed

lemma js_match_first_occurrence:
  assumes stop_ok: "\<And>t. (run stop t = []) = (\<not> stopP (rest t))"
    and name_ok: "name \<noteq> []" "\<not> is_space (hd name)"
  shows "(\<exists>m. js_match (section_rx h name stop) s = Some m \<and> m_index m = i) =
         (i \<le> length s \<and> heading_at h name (drop i s) \<and>
          (\<forall>j<i. \<not> heading_at h name (drop j s)))"
  unfolding js_match_section_index[OF assms] by (rule find_heading_at_iff[OF name_ok])

lemma search_Some_exec:
  "search r bef rst = Some m \<Longrightarrow> \<exists>p q. rst = p @ q \<and> exec_at r (rev p @ bef) q = Some m"
proof (induction rst arbitrary: bef)
  case Nil
  then show ?case by simp
next
  case (Cons c cs)
  show ?case
  proof (cases "exec_at r bef (c # cs)")
    case None
    then have "search r (c # bef) cs = Some m" using Cons.prems by simp
    from Cons.IH[OF this] obtain p q where "cs = p @ q" "exec_at r (rev p @ c # bef) q = Some m"
      by blast
    then have "c # cs = (c # p) @ q \<and> exec_at r (rev (c # p) @ bef) q = Some m" by simp
    then show ?thesis by blast
  next
    case (Some m')
    then have "c # cs = [] @ (c # cs) \<and> exec_at r (rev [] @ bef) (c # cs) = Some m"
      using Cons.prems by simp
    then show ?thesis by blast
  qed
qed

lemma exec_at_Bol:
  "exec_at (Seq Bol r) bef q = Some m \<Longrightarrow> bef = [] \<or> is_line_terminator (hd bef)"
proof (cases bef)
  case Nil
  then show ?thesis by simp
next
  case (Cons c cs)
  assume e: "exec_at (Seq Bol r) bef q = Some m"
  show ?thesis
  proof (cases "is_line_terminator c")
    case True
    then show ?thesis using Cons by simp
  next
    case False
    then have "exec_at (Seq Bol r) bef q = None"
      using Cons by (simp add: exec_at_def)
    then show ?thesis using e by simp
  qed
qed

lemma match_all_from_search:
  "m \<in> set (match_all_from r inp k) \<Longrightarrow>
   \<exists>k'\<le>length inp. search r (rev (take k' inp)) (drop k' inp) = Some m"
proof (induction r inp k rule: match_all_from.induct)
  case (1 r inp k)
  have ge: "\<not> length inp < k"
    using "1.prems" by (subst (asm) match_all_from.simps) (auto split: if_splits)
  show ?case
  proof (cases "search r (rev (take k inp)) (drop k inp)")
    case None
    then show ?thesis
      using "1.prems" ge by (subst (asm) match_all_from.simps) simp
  next
    case (Some m')
    define k' where "k' = (if m_whole m' = [] then m_index m' + length (m_whole m') + 1
                           else m_index m' + length (m_whole m'))"
    have unf: "match_all_from r inp k = m' # match_all_from r inp k'"
      using match_all_from_unfold[OF Some] ge unfolding k'_def by simp
    have lt: "k < k'"
      using search_index_ge[OF Some] ge unfolding k'_def by (cases "m_whole m'") simp_all
    show ?thesis
    proof (cases "m = m'")
      case True
      then show ?thesis using Some ge by (intro exI[of _ k]) simp
    next
      case False
      then have mem: "m \<in> set (match_all_from r inp k')"
        using "1.prems" unfolding unf by simp
      show ?thesis
        by (rule "1.IH"[OF ge Some refl, of k']) (use lt mem in \<open>simp_all add: k'_def\<close>)
    qed
  qed
qed

lemma element_marker_at_line_start:
  assumes "m \<in> set (match_all element_rx body)"
  shows "m_index m = 0 \<or>
         (m_index m \<le> length body \<and> is_line_terminator (body ! (m_index m - 1)))"
proof -
  from match_all_from_search[OF assms[unfolded match_all_def]]
  obtain k where k: "k \<le> length body"
    and s: "search element_rx (rev (take k body)) (drop k body) = Some m" by blast
  from search_Some_exec[OF s] obtain p q where pq: "drop k body = p @ q"
    and e: "exec_at element_rx (rev p @ rev (take k body)) q = Some m" by blast
  define b where "b = take k body @ p"
  have "take k body @ drop k body = body" by (rule append_take_drop_id)
  then have body: "b @ q = body" unfolding pq b_def by simp
  have rb: "rev p @ rev (take k body) = rev b" by (simp add: b_def)
  have e': "exec_at (Seq Bol (heading_rx (js ''###'') (js ''Element:'')
              (Group (Star (Cls (\<lambda>c. \<not> is_line_terminator c)))))) (rev b) q = Some m"
    using e unfolding rb rx_shapes(7) .
  have ix: "m_index m = length b"
    using exec_at_index[OF e'] by simp
  have le: "m_index m \<le> length body"
    unfolding ix body[symmetric] by simp
  from exec_at_Bol[OF e'] show ?thesis
  proof
    assume "rev b = []"
    then show ?thesis using ix by simp
  next
    assume lt: "is_line_terminator (hd (rev b))"
    show ?thesis
    proof (cases "b = []")
      case True
      then show ?thesis using ix by simp
    next
      case False
      have "hd (rev b) = last b" using False by (simp add: hd_rev)
      also have "\<dots> = b ! (length b - 1)" using False by (simp add: last_conv_nth)
      also have "\<dots> = (b @ q) ! (length b - 1)" using False by (simp add: nth_append)
      finally have "is_line_terminator (body ! (m_index m - 1))"
        using lt unfolding ix body by simp
      then show ?thesis using le by simp
    qed
  qed
qed

subsection \<open>The patterns of the formatter\<close>

lemma exec_paragraph:
  "exec_at paragraph_rx bef rst =
     (case rst of
        [] \<Rightarrow> None
      | c # cs \<Rightarrow>
          if c = nl \<and> prefix (js ''*'') (dropWhile is_space cs)
          then Some \<lparr>m_index = length bef, m_whole = nl # takeWhile is_space cs,
                     m_group1 = None\<rparr>
          else None)"
proof (cases rst)
  case Nil
  then show ?thesis by (simp add: exec_at_def paragraph_rx_def)
next
  case (Cons c cs)
  show ?thesis
  proof (cases "c = nl")
    case False
    then show ?thesis using Cons by (simp add: exec_at_def paragraph_rx_def)
  next
    case True
    define s1 where "s1 = \<lparr>passed = [nl] @ bef, rest = cs, cap = None\<rparr>"
    define s2 where "s2 = advance (length (takeWhile is_space (rest s1))) s1"
    have blocked: "\<And>t x xs. rest t = x # xs \<Longrightarrow> is_space x \<Longrightarrow>
        run (Ahead (Lit (js ''*''))) t = []"
      by (auto simp: js_simps is_space_def is_line_terminator_def)
    have st: "concat (map (run (Ahead (Lit (js ''*'')))) (run (Star (Cls is_space)) s1)) =
          run (Ahead (Lit (js ''*''))) s2"
      unfolding s2_def by (rule star_then_blocked) (rule blocked)
    have r2: "rest s2 = dropWhile is_space cs"
      unfolding s2_def rest_advance drop_takeWhile_length by (simp add: s1_def)
    have "run paragraph_rx \<lparr>passed = bef, rest = rst, cap = None\<rparr> =
          run (Ahead (Lit (js ''*''))) s2"
      using Cons True st by (simp add: paragraph_rx_def advance_def s1_def)
    also have "\<dots> = (if prefix (js ''*'') (dropWhile is_space cs) then [s2] else [])"
      by (simp add: r2)
    finally have run: "run paragraph_rx \<lparr>passed = bef, rest = rst, cap = None\<rparr> =
        (if prefix (js ''*'') (dropWhile is_space cs) then [s2] else [])" .
    have w: "take (length rst - length (rest s2)) rst = nl # takeWhile is_space cs"
    proof -
      have "length (dropWhile is_space cs) \<le> length cs" by (rule length_dropWhile_le)
      then have "length rst - length (rest s2) = Suc (length cs - length (dropWhile is_space cs))"
        using Cons r2 by simp
      moreover have "length cs - length (dropWhile is_space cs) = length (takeWhile is_space cs)"
        using takeWhile_dropWhile_id[of is_space cs]
        by (metis add_diff_cancel_right' length_append)
      moreover have "take (length (takeWhile is_space cs)) cs = takeWhile is_space cs"
        by (metis append_eq_conv_conj takeWhile_dropWhile_id)
      ultimately show ?thesis using Cons True by simp
    qed
    have "exec_at paragraph_rx bef rst =
          (if prefix (js ''*'') (dropWhile is_space cs)
           then Some \<lparr>m_index = length bef,
                      m_whole = take (length rst - length (rest s2)) rst,
                      m_group1 = cap s2\<rparr>
           else None)"
      unfolding exec_at_def run by simp
    moreover have "cap s2 = None" by (simp add: s2_def s1_def)
    ultimately show ?thesis
      unfolding w using Cons True by simp
  qed
qed

lemma run_Star_Cls_mem:
  "t \<in> set (run (Star (Cls P)) s) \<Longrightarrow>
   \<exists>j\<le>length (takeWhile P (rest s)). t = advance j s"
proof (induction "rest s" arbitrary: s)
  case Nil
  have "run (Star (Cls P)) s = [s]"
    using Nil.hyps[symmetric] by (subst run_Star_Cls) simp
  then show ?case using Nil.prems by (intro exI[of _ 0]) simp
next
  case (Cons c cs)
  have rs: "rest s = c # cs" using Cons.hyps(2) by simp
  show ?case
  proof (cases "P c")
    case False
    then have "run (Star (Cls P)) s = [s]" using rs by (subst run_Star_Cls) simp
    then show ?thesis using Cons.prems by (intro exI[of _ 0]) simp
  next
    case True
    then have u: "run (Star (Cls P)) s = run (Star (Cls P)) (advance 1 s) @ [s]"
      using rs by (subst run_Star_Cls) simp
    show ?thesis
    proof (cases "t = s")
      case True
      then show ?thesis by (intro exI[of _ 0]) simp
    next
      case False
      then have "t \<in> set (run (Star (Cls P)) (advance 1 s))"
        using Cons.prems unfolding u by simp
      moreover have "cs = rest (advance 1 s)" using rs by simp
      ultimately obtain j where "j \<le> length (takeWhile P (rest (advance 1 s)))"
        and "t = advance j (advance 1 s)"
        using Cons.hyps(1) by blast
      then have "Suc j \<le> length (takeWhile P (rest s)) \<and> t = advance (Suc j) s"
        using rs True by simp
      then show ?thesis by blast
    qed
  qed
qed

lemma run_bold_span:
  assumes "run bold_rx s \<noteq> []"
  shows "\<exists>inner post. rest s = js ''**'' @ inner @ js ''**'' @ post \<and>
           inner \<noteq> [] \<and> 0x002A \<notin> set inner"
proof -
  define ns where "ns = (\<lambda>c::jschar. c \<noteq> 0x002A)"
  from assms obtain u where u: "u \<in> set (run bold_rx s)" by (cases "run bold_rx s") auto
  have p1: "prefix (js ''**'') (rest s)"
    using u by (auto simp: bold_rx_def split: if_splits)
  define s1 where "s1 = advance (length (js ''**'')) s"
  from u p1 obtain g where g: "g \<in> set (run (Seq (Cls ns) (Star (Cls ns))) s1)"
    and ug: "u \<in> set (run (Lit (js ''**'')) (g\<lparr>cap := Some (take (length (rest s1) - length (rest g)) (rest s1))\<rparr>))"
    by (auto simp: bold_rx_def s1_def ns_def)
  from g obtain c cs where r1: "rest s1 = c # cs" and c: "ns c"
    and g2: "g \<in> set (run (Star (Cls ns)) (advance 1 s1))"
    by (cases "rest s1") (auto split: if_splits)
  from run_Star_Cls_mem[OF g2] obtain j where j: "j \<le> length (takeWhile ns cs)"
    and gj: "g = advance j (advance 1 s1)" using r1 by auto
  have rg: "rest g = drop j cs" using gj r1 by simp
  have p2: "prefix (js ''**'') (drop j cs)"
    using ug rg by (auto split: if_splits)
  then obtain post where post: "drop j cs = js ''**'' @ post" by (auto simp: prefix_def)
  from p1 obtain r where r: "rest s = js ''**'' @ r" by (auto simp: prefix_def)
  have "r = c # cs" using r r1 by (simp add: s1_def)
  then have "rest s = js ''**'' @ (c # take j cs) @ js ''**'' @ post"
    using r post by (metis append_Cons append_take_drop_id)
  moreover have "0x002A \<notin> set (c # take j cs)"
  proof -
    have "take j cs = take j (takeWhile ns cs)"
      using j by (metis append_take_drop_id length_takeWhile_le takeWhile_dropWhile_id
          take_append order.refl diff_is_0_eq take_0 append_Nil2)
    then have "set (take j cs) \<subseteq> set (takeWhile ns cs)" by (metis set_take_subset)
    then have "\<forall>x\<in>set (take j cs). ns x" by (auto dest: set_takeWhileD)
    then show ?thesis using c by (auto simp: ns_def)
  qed
  ultimately show ?thesis by blast
qed

lemma search_None_all:
  "(\<And>p q. rst = p @ q \<Longrightarrow> exec_at r (rev p @ bef) q = None) \<Longrightarrow> search r bef rst = None"
proof (induction rst arbitrary: bef)
  case Nil
  then show ?case using Nil.prems[of "[]" "[]"] by simp
next
  case (Cons c cs)
  have "exec_at r bef (c # cs) = None" using Cons.prems[of "[]" "c # cs"] by simp
  moreover have "search r (c # bef) cs = None"
  proof (rule Cons.IH)
    fix p q assume "cs = p @ q"
    then show "exec_at r (rev p @ c # bef) q = None"
      using Cons.prems[of "c # p" q] by simp
  qed
  ultimately show ?case by simp
qed

lemma exec_at_None_iff:
  "(exec_at r bef q = None) = (run r \<lparr>passed = bef, rest = q, cap = None\<rparr> = [])"
  by (simp add: exec_at_def split: list.splits)

lemma replace_all_no_match:
  "search r [] t = None \<Longrightarrow> replace_all r f t = t"
  by (simp add: replace_all_def match_all_def match_all_from.simps[of r t 0] substring_to_end)

lemma bold_noop:
  assumes "\<not> has_bold_span t"
  shows "replace_all bold_rx strong_of t = t"
proof (rule replace_all_no_match, rule search_None_all)
  fix p q assume pq: "t = p @ q"
  show "exec_at bold_rx (rev p @ []) q = None"
  proof (rule ccontr)
    assume "exec_at bold_rx (rev p @ []) q \<noteq> None"
    then have "run bold_rx \<lparr>passed = rev p @ [], rest = q, cap = None\<rparr> \<noteq> []"
      by (simp add: exec_at_None_iff)
    from run_bold_span[OF this] obtain inner post
      where "q = js ''**'' @ inner @ js ''**'' @ post" "inner \<noteq> []" "0x002A \<notin> set inner"
      by auto
    then have "has_bold_span t" unfolding has_bold_span_def using pq by blast
    then show False using assms by simp
  qed
qed

lemma no_asterisk_no_span: "0x002A \<notin> set t \<Longrightarrow> \<not> has_bold_span t"
  by (auto simp: has_bold_span_def js_simps)

lemma split_loop_none:
  assumes "\<And>q. q < length S \<Longrightarrow> exec_at r (rev (take q S)) (drop q S) = None"
  shows "split_loop r S p q = [substring p (length S) S]"
proof (induction "length S - q" arbitrary: q)
  case 0
  then show ?case by (subst split_loop.simps) simp
next
  case (Suc n)
  then have lt: "q < length S" by simp
  have "split_loop r S p (q + 1) = [substring p (length S) S]"
    by (rule Suc.hyps(1)) (use Suc.hyps(2) in simp)
  then show ?case
    using lt assms[OF lt] by (subst split_loop.simps) simp
qed

lemma split_no_asterisk:
  assumes "0x002A \<notin> set t" "t \<noteq> []"
  shows "split_rx paragraph_rx t = [t]"
proof -
  have "exec_at paragraph_rx (rev (take q t)) (drop q t) = None" for q
  proof (cases "drop q t")
    case Nil
    then show ?thesis by (simp add: exec_paragraph)
  next
    case (Cons c cs)
    have "set cs \<subseteq> set t"
      using Cons by (metis set_drop_subset set_subset_Cons subset_trans)
    then have "0x002A \<notin> set (dropWhile is_space cs)"
      using assms(1) set_dropWhileD by fastforce
    moreover have "0x002A \<in> set (dropWhile is_space cs)"
      if "prefix (js ''*'') (dropWhile is_space cs)"
    proof -
      from that obtain r where "dropWhile is_space cs = js ''*'' @ r"
        by (auto simp: prefix_def)
      then show ?thesis by (simp add: js_simps)
    qed
    ultimately have "\<not> prefix (js ''*'') (dropWhile is_space cs)" by blast
    then show ?thesis using Cons by (simp add: exec_paragraph)
  qed
  then have "split_loop paragraph_rx t 0 0 = [substring 0 (length t) t]"
    by (intro split_loop_none)
  then show ?thesis using assms(2) by (simp add: split_rx_def substring_0)
qed

subsection \<open>Replacing every newline\<close>

lemma exec_at_Lit1:
  "exec_at (Lit [c]) bef rst =
     (case rst of [] \<Rightarrow> None
      | x # xs \<Rightarrow> if x = c then Some \<lparr>m_index = length bef, m_whole = [c], m_group1 = None\<rparr>
                 else None)"
  by (cases rst) (simp_all add: exec_at_def advance_def)

lemma search_Lit1:
  "search (Lit [c]) bef rst =
     (case dropWhile (\<lambda>x. x \<noteq> c) rst of
        [] \<Rightarrow> None
      | _ # _ \<Rightarrow> Some \<lparr>m_index = length bef + length (takeWhile (\<lambda>x. x \<noteq> c) rst),
                       m_whole = [c], m_group1 = None\<rparr>)"
proof (induction rst arbitrary: bef)
  case Nil
  then show ?case by (simp add: exec_at_Lit1)
next
  case (Cons x xs)
  show ?case
  proof (cases "x = c")
    case True
    then show ?thesis by (simp add: exec_at_Lit1)
  next
    case False
    then show ?thesis
      by (cases "dropWhile (\<lambda>x. x \<noteq> c) xs")
         (simp_all add: exec_at_Lit1 Cons.IH del: dropWhile_eq_Nil_conv)
  qed
qed

lemma concat_map_no_char:
  "\<forall>x\<in>set xs. x \<noteq> c \<Longrightarrow> concat (map (\<lambda>x. if x = c then w else [x]) xs) = xs"
  by (induction xs) auto

lemma substring_take_drop:
  "k + n \<le> length s \<Longrightarrow> substring k (k + n) s = take n (drop k s)"
  by (simp add: substring_def Let_def min_def max_def)

lemma splice_char:
  "k \<le> length s \<Longrightarrow>
   splice (\<lambda>m. w) s k (match_all_from (Lit [c]) s k) =
   concat (map (\<lambda>x. if x = c then w else [x]) (drop k s))"
proof (induction "length s - k" arbitrary: k rule: less_induct)
  case less
  define rst where "rst = drop k s"
  define tw where "tw = takeWhile (\<lambda>x. x \<noteq> c) rst"
  define n where "n = length tw"
  show ?case
  proof (cases "dropWhile (\<lambda>x. x \<noteq> c) rst")
    case Nil
    then have none: "search (Lit [c]) (rev (take k s)) (drop k s) = None"
      by (simp add: search_Lit1 rst_def del: dropWhile_eq_Nil_conv)
    have "\<forall>x\<in>set rst. x \<noteq> c" using Nil by (simp add: dropWhile_eq_Nil_conv)
    then have "concat (map (\<lambda>x. if x = c then w else [x]) rst) = rst"
      by (rule concat_map_no_char)
    then show ?thesis
      using none less.prems
      by (simp add: match_all_from.simps[of _ s k] substring_to_end rst_def)
  next
    case (Cons y ys)
    have yc: "y = c"
      using hd_dropWhile[of "\<lambda>x. x \<noteq> c" rst] Cons by simp
    have split: "rst = tw @ c # ys"
      using takeWhile_dropWhile_id[of "\<lambda>x. x \<noteq> c" rst] Cons yc by (simp add: tw_def)
    have lrst: "length s - k = n + Suc (length ys)"
      using arg_cong[OF split, of length] by (simp add: n_def rst_def)
    have kn: "k + n < length s" using lrst by simp
    define m where "m = \<lparr>m_index = k + n, m_whole = [c], m_group1 = None\<rparr>"
    have "search (Lit [c]) (rev (take k s)) rst = Some m"
      using Cons less.prems
      by (simp add: search_Lit1 n_def tw_def m_def del: dropWhile_eq_Nil_conv)
    then have some: "search (Lit [c]) (rev (take k s)) (drop k s) = Some m"
      by (simp add: rst_def)
    have unf: "match_all_from (Lit [c]) s k = m # match_all_from (Lit [c]) s (k + n + 1)"
      using match_all_from_unfold[OF some less.prems] by (simp add: m_def)
    have ih: "splice (\<lambda>m. w) s (k + n + 1) (match_all_from (Lit [c]) s (k + n + 1)) =
              concat (map (\<lambda>x. if x = c then w else [x]) (drop (k + n + 1) s))"
      by (rule less.hyps) (use kn in simp_all)
    have "take n rst = tw" unfolding split n_def by simp
    then have tk: "take n (drop k s) = tw" by (simp add: rst_def)
    have "drop (Suc n) rst = ys" unfolding split n_def by simp
    then have dr: "drop (k + n + 1) s = ys"
      by (simp add: rst_def add.commute add.left_commute)
    have sub: "substring k (k + n) s = tw"
      using substring_take_drop[of k n s] kn tk by simp
    have twc: "concat (map (\<lambda>x. if x = c then w else [x]) tw) = tw"
      unfolding tw_def by (rule concat_map_no_char) (auto dest: set_takeWhileD)
    have "concat (map (\<lambda>x. if x = c then w else [x]) rst) =
          tw @ w @ concat (map (\<lambda>x. if x = c then w else [x]) ys)"
      unfolding split by (simp add: twc)
    then have "concat (map (\<lambda>x. if x = c then w else [x]) (drop k s)) =
          tw @ w @ concat (map (\<lambda>x. if x = c then w else [x]) ys)"
      by (simp add: rst_def)
    moreover have "splice (\<lambda>m. w) s k (m # match_all_from (Lit [c]) s (k + n + 1)) =
          tw @ w @ concat (map (\<lambda>x. if x = c then w else [x]) ys)"
      using ih dr sub by (simp add: m_def)
    ultimately show ?thesis
      unfolding unf by simp
  qed
qed

lemma replace_all_char:
  "replace_all (Lit [c]) (\<lambda>m. w) s = concat (map (\<lambda>x. if x = c then w else [x]) s)"
  using splice_char[of 0 s w c] by (simp add: replace_all_def match_all_def)

lemma replace_newlines: "replace_all newline_rx (\<lambda>m. js ''<br>'') s = line_breaks s"
  by (simp add: newline_rx_def replace_all_char line_breaks_def)

subsection \<open>The formatter on a text without asterisk\<close>

lemma set_trim: "set (trim t) \<subseteq> set t"
proof -
  have "set (trim t) \<subseteq> set (rev (dropWhile is_space t))"
    unfolding trim_def set_rev by (auto dest: set_dropWhileD)
  also have "\<dots> \<subseteq> set t" by (auto dest: set_dropWhileD)
  finally show ?thesis .
qed

lemma html_paragraph_plain:
  assumes "0x002A \<notin> set t"
  shows "html_paragraph t = js ''<p>'' @ line_breaks (trim t) @ js ''</p>''"
proof -
  have "0x002A \<notin> set (trim t)" using assms set_trim by blast
  then have "\<not> prefix (js ''*'') (trim t)"
    by (cases "trim t") (auto simp: js_simps)
  then show ?thesis
    by (simp add: html_paragraph_def Let_def replace_newlines)
qed

lemma format_plain:
  assumes "0x002A \<notin> set t" "t \<noteq> []"
  shows "formatAIResponseWithAsterisks t = js ''<p>'' @ line_breaks (trim t) @ js ''</p>''"
proof -
  have "paragraphs_of t = [t]"
    unfolding paragraphs_of_def bold_noop[OF no_asterisk_no_span[OF assms(1)]]
    by (rule split_no_asterisk[OF assms])
  then show ?thesis
    using assms(2) by (simp add: formatAIResponseWithAsterisks_def html_paragraph_plain[OF assms(1)])
qed

lemma line_breaks_set: "set (line_breaks s) \<subseteq> set s \<union> set (js ''<br>'')"
  by (induction s) (auto simp: line_breaks_def)

lemma line_breaks_no_newline: "nl \<notin> set (line_breaks s)"
  by (induction s) (auto simp: line_breaks_def js_simps nl_def)

lemma line_breaks_id: "nl \<notin> set s \<Longrightarrow> line_breaks s = s"
  unfolding line_breaks_def by (rule concat_map_no_char) auto

lemma length_line_breaks: "length s \<le> length (line_breaks s)"
  by (induction s) (auto simp: line_breaks_def js_simps)

lemma trim_wrapped: "trim (js ''<p>'' @ b @ js ''</p>'') = js ''<p>'' @ b @ js ''</p>''"
  by (simp add: trim_def js_simps is_space_def is_line_terminator_def)

lemma format_wrapped:
  assumes "0x002A \<notin> set b" "nl \<notin> set b"
  shows "formatAIResponseWithAsterisks (js ''<p>'' @ b @ js ''</p>'') =
         js ''<p>'' @ (js ''<p>'' @ b @ js ''</p>'') @ js ''</p>''"
proof -
  have a: "0x002A \<notin> set (js ''<p>'' @ b @ js ''</p>'')"
    using assms(1) by (simp add: js_simps)
  have n: "nl \<notin> set (js ''<p>'' @ b @ js ''</p>'')"
    using assms(2) by (simp add: js_simps nl_def)
  have "js ''<p>'' @ b @ js ''</p>'' \<noteq> []" by (simp add: js_simps)
  from format_plain[OF a this] show ?thesis
    unfolding trim_wrapped line_breaks_id[OF n] .
qed

subsection \<open>Bodies that are not blank\<close>

lemma trim_Cons_space: "is_space c \<Longrightarrow> trim (c # x) = trim x"
  by (simp add: trim_def)

lemma trim_Nil [simp]: "trim [] = []"
  by (simp add: trim_def)

lemma scan_after_spaces:
  "trim (scan_until stop r) \<noteq> [] \<Longrightarrow>
   scan_until stop (dropWhile is_space r) = dropWhile is_space (scan_until stop r)"
proof (induction r)
  case Nil
  then show ?case by simp
next
  case (Cons c cs)
  have ns: "\<not> stop (c # cs)" using Cons.prems by (auto split: if_splits)
  show ?case
  proof (cases "is_space c")
    case True
    then have "trim (scan_until stop cs) \<noteq> []"
      using Cons.prems ns by (simp add: trim_Cons_space)
    from Cons.IH[OF this] show ?thesis using True ns by simp
  next
    case False
    then show ?thesis using ns by simp
  qed
qed

lemma trim_scan_after_spaces:
  "trim (scan_until stop r) \<noteq> [] \<Longrightarrow>
   trim (scan_until stop (dropWhile is_space r)) = trim (scan_until stop r)"
  by (simp add: scan_after_spaces trim_dropWhile)


lemma section_body_found:
  "find_heading h name s = Some (i, r) \<Longrightarrow>
   section_body h name stopP s = Some (scan_until stopP (dropWhile is_space r))"
  by (simp add: section_body_def heading_body_def)

lemma section_body_missing:
  "find_heading h name s = None \<Longrightarrow> section_body h name stopP s = None"
  by (simp add: section_body_def heading_body_def)

lemma level2_stop_prefix: "level2_stop = prefix (nl # js ''##'')"
  by (rule ext) (simp add: level2_stop_def)

subsection \<open>The markers and blocks of the recommendations\<close>

text \<open>
  An attempt of the marker pattern at a position, the search for the next marker, and
  then all markers of a body: when no label line is blank, the matches of the pattern and
  the chunks cut between them are the blocks read off the text.
\<close>

declare text_blocks.simps [simp del]






lemma marker_at_Nil [simp]: "marker_at [] = None"
  by (simp add: marker_at_def after_heading_def js_simps)








lemma line_terminator_space: "is_line_terminator c \<Longrightarrow> is_space c"
  by (simp add: is_space_def)







section \<open>The claims\<close>

subsection \<open>Defaults without headings\<close>

text \<open>
  Claim C1. The extractor returns a document for every input, never an error; and for a
  text in which none of the four level-2 headings occurs (the empty text is one) the
  document has an empty assessment, an empty price analysis, no recommendations and no
  keywords.
\<close>

theorem extractor_defaults_without_headings:
  "(\<exists>a. parseAnalysisFromText text = Inr a) \<and>
   (\<not> contains_heading (js ''##'') (js ''Overall Assessment'') text \<and>
    \<not> contains_heading (js ''##'') (js ''Price Analysis'') text \<and>
    \<not> contains_heading (js ''##'') (js ''Suggested SEO Tags (13)'') text \<and>
    \<not> contains_heading (js ''##'') (js ''Actionable Recommendations'') text
    \<longrightarrow> parseAnalysisFromText text =
          Inr \<lparr>overall_assessment = [], price_analysis = [],
               recommendations = [], suggested_keywords = []\<rparr>)"
proof (intro conjI impI)
  show "\<exists>a. parseAnalysisFromText text = Inr a"
    unfolding parse_eq by (rule exI) (rule refl)
next
  assume h: "\<not> contains_heading (js ''##'') (js ''Overall Assessment'') text \<and>
    \<not> contains_heading (js ''##'') (js ''Price Analysis'') text \<and>
    \<not> contains_heading (js ''##'') (js ''Suggested SEO Tags (13)'') text \<and>
    \<not> contains_heading (js ''##'') (js ''Actionable Recommendations'') text"
  have "section_body (js ''##'') (js ''Overall Assessment'') level2_stop text = None"
    using h by (simp add: section_body_None_iff[OF name_ok(1,2)])
  moreover have "section_body (js ''##'') (js ''Price Analysis'') level2_stop text = None"
    using h by (simp add: section_body_None_iff[OF name_ok(3,4)])
  moreover have "section_body (js ''##'') (js ''Suggested SEO Tags (13)'') level2_stop text = None"
    using h by (simp add: section_body_None_iff[OF name_ok(5,6)])
  moreover have "section_body (js ''##'') (js ''Actionable Recommendations'') tags_stop text = None"
    using h by (simp add: section_body_None_iff[OF name_ok(7,8)])
  ultimately show "parseAnalysisFromText text =
          Inr \<lparr>overall_assessment = [], price_analysis = [],
               recommendations = [], suggested_keywords = []\<rparr>"
    by (simp add: parse_eq)
qed

text \<open>A text with a lone \<^verbatim>\<open>#\<close> and no heading, and the empty text.\<close>

theorem extractor_defaults_without_headings_witness:
  "\<not> contains_heading (js ''##'') (js ''Overall Assessment'') (js ''Oak sign, 20 # 30 cm'') \<and>
   \<not> contains_heading (js ''##'') (js ''Price Analysis'') (js ''Oak sign, 20 # 30 cm'') \<and>
   \<not> contains_heading (js ''##'') (js ''Suggested SEO Tags (13)'') (js ''Oak sign, 20 # 30 cm'') \<and>
   \<not> contains_heading (js ''##'') (js ''Actionable Recommendations'') (js ''Oak sign, 20 # 30 cm'') \<and>
   parseAnalysisFromText (js ''Oak sign, 20 # 30 cm'') =
     Inr \<lparr>overall_assessment = [], price_analysis = [],
          recommendations = [], suggested_keywords = []\<rparr> \<and>
   parseAnalysisFromText [] =
     Inr \<lparr>overall_assessment = [], price_analysis = [],
          recommendations = [], suggested_keywords = []\<rparr>"
proof -
  let ?T = "js ''Oak sign, 20 # 30 cm''"
  have a: "find_heading (js ''##'') (js ''Overall Assessment'') ?T = None"
    by code_simp
  have b: "find_heading (js ''##'') (js ''Price Analysis'') ?T = None"
    by code_simp
  have c: "find_heading (js ''##'') (js ''Suggested SEO Tags (13)'') ?T = None"
    by code_simp
  have d: "find_heading (js ''##'') (js ''Actionable Recommendations'') ?T = None"
    by code_simp
  note h = a[unfolded find_heading_None_iff[OF name_ok(1,2)]]
    b[unfolded find_heading_None_iff[OF name_ok(3,4)]]
    c[unfolded find_heading_None_iff[OF name_ok(5,6)]]
    d[unfolded find_heading_None_iff[OF name_ok(7,8)]]
  have a0: "find_heading (js ''##'') (js ''Overall Assessment'') [] = None"
    by code_simp
  have b0: "find_heading (js ''##'') (js ''Price Analysis'') [] = None"
    by code_simp
  have c0: "find_heading (js ''##'') (js ''Suggested SEO Tags (13)'') [] = None"
    by code_simp
  have d0: "find_heading (js ''##'') (js ''Actionable Recommendations'') [] = None"
    by code_simp
  note h0 = a0[unfolded find_heading_None_iff[OF name_ok(1,2)]]
    b0[unfolded find_heading_None_iff[OF name_ok(3,4)]]
    c0[unfolded find_heading_None_iff[OF name_ok(5,6)]]
    d0[unfolded find_heading_None_iff[OF name_ok(7,8)]]
  have x: "parseAnalysisFromText ?T =
     Inr \<lparr>overall_assessment = [], price_analysis = [],
          recommendations = [], suggested_keywords = []\<rparr>"
    by (rule mp[OF conjunct2[OF extractor_defaults_without_headings]])
       (intro conjI h)
  have y: "parseAnalysisFromText [] =
     Inr \<lparr>overall_assessment = [], price_analysis = [],
          recommendations = [], suggested_keywords = []\<rparr>"
    by (rule mp[OF conjunct2[OF extractor_defaults_without_headings]])
       (intro conjI h0)
  show ?thesis
    by (intro conjI h x y)
qed

subsection \<open>Blocks in order, fields from their own block\<close>




subsection \<open>Keywords from the tag lines\<close>

text \<open>
  Claim C3, as stated, fails: the body of the tags section ends at the first newline
  directly followed by \<^verbatim>\<open>##\<close>, so a \<^verbatim>\<open>###\<close> line among the tag lines ends it and
  the tag lines behind it give no keyword. The lines of the section up to the end of the
  text would give three keywords; the extractor returns one.
\<close>

theorem tags_body_counterexample:
  "parseAnalysisFromText tags_with_subheading =
     Inr \<lparr>overall_assessment = [], price_analysis = [], recommendations = [],
          suggested_keywords = [js ''oak sign'']\<rparr> \<and>
   spec_keywords (split_char nl (js ''- oak sign'' @ [nl] @ js ''### Materials'' @ [nl] @
                                 js ''- pine'')) =
     [js ''oak sign'', js ''### Materials'', js ''pine'']"
  by code_simp

text \<open>
  Claim C3, amended. Let \<open>r\<close> be the text behind the first occurrence of the heading
  \<^verbatim>\<open>## Suggested SEO Tags (13)\<close>. The body of the section runs from the heading to the
  first newline directly followed by \<^verbatim>\<open>##\<close>, a deeper heading such as \<^verbatim>\<open>###\<close>
  included, or to the end of the text. When that body is not blank, the keywords are
  obtained from the lines of the body without its leading white space (split at newlines),
  in their order: from each line a hyphen in first position is removed, the line is
  trimmed, dropped when empty, and cut to its first 20 code units. Each keyword has length
  at most 20.
\<close>

theorem keywords_from_tag_lines:
  assumes "find_heading (js ''##'') (js ''Suggested SEO Tags (13)'') text = Some (i, r)"
    and "trim (scan_until (prefix (nl # js ''##'')) r) \<noteq> []"
    and "body = dropWhile is_space (scan_until (prefix (nl # js ''##'')) r)"
  shows "map_sum id suggested_keywords (parseAnalysisFromText text) =
           Inr (spec_keywords (split_char nl body)) \<and>
         (\<forall>k\<in>set (spec_keywords (split_char nl body)). length k \<le> 20) \<and>
         subseq (spec_keywords (split_char nl body))
           (map (\<lambda>l. take 20 (trim (strip_hyphen l))) (split_char nl body))"
proof (intro conjI ballI)
  have "scan_until (prefix (nl # js ''##'')) (dropWhile is_space r) = body"
    unfolding assms(3) using assms(2) by (rule scan_after_spaces)
  then have "section_body (js ''##'') (js ''Suggested SEO Tags (13)'') level2_stop text = Some body"
    using section_body_found[OF assms(1), of level2_stop] unfolding level2_stop_prefix by simp
  then show "map_sum id suggested_keywords (parseAnalysisFromText text) =
           Inr (spec_keywords (split_char nl body))"
    by (simp add: parse_eq keywords_of_spec)
next
  fix k assume "k \<in> set (spec_keywords (split_char nl body))"
  then show "length k \<le> 20" by (rule spec_keywords_length)
next
  show "subseq (spec_keywords (split_char nl body))
           (map (\<lambda>l. take 20 (trim (strip_hyphen l))) (split_char nl body))"
    by (rule spec_keywords_subseq)
qed

text \<open>
  Three tag lines and a blank one: a hyphen and a space, a hyphen alone before a long tag,
  and a hyphen behind a space, which stays.
\<close>

theorem keywords_from_tag_lines_witness:
  "find_heading (js ''##'') (js ''Suggested SEO Tags (13)'') tags_example =
     Some (0, [nl] @ js ''- oak sign'' @ [nl] @ [nl] @
              js ''-custom welcome decor for weddings'' @ [nl] @ js '' - rustic'') \<and>
   split_char nl (js ''- oak sign'' @ [nl] @ [nl] @
              js ''-custom welcome decor for weddings'' @ [nl] @ js '' - rustic'') =
     [js ''- oak sign'', [], js ''-custom welcome decor for weddings'', js '' - rustic''] \<and>
   map_sum id suggested_keywords (parseAnalysisFromText tags_example) =
     Inr [js ''oak sign'', js ''custom welcome decor'', js ''- rustic'']"
proof -
  let ?R = "[nl] @ js ''- oak sign'' @ [nl] @ [nl] @
              js ''-custom welcome decor for weddings'' @ [nl] @ js '' - rustic''"
  let ?B = "js ''- oak sign'' @ [nl] @ [nl] @
              js ''-custom welcome decor for weddings'' @ [nl] @ js '' - rustic''"
  have a: "find_heading (js ''##'') (js ''Suggested SEO Tags (13)'') tags_example = Some (0, ?R)"
    by code_simp
  have b: "trim (scan_until (prefix (nl # js ''##'')) ?R) \<noteq> []"
    by code_simp
  have c: "?B = dropWhile is_space (scan_until (prefix (nl # js ''##'')) ?R)"
    by code_simp
  have l: "split_char nl ?B =
     [js ''- oak sign'', [], js ''-custom welcome decor for weddings'', js '' - rustic'']"
    by code_simp
  have k: "spec_keywords (split_char nl ?B) =
           [js ''oak sign'', js ''custom welcome decor'', js ''- rustic'']"
    by code_simp
  note t = conjunct1[OF keywords_from_tag_lines[OF a b c], unfolded k]
  show ?thesis
    by (intro conjI) (rule a, rule l, rule t)
qed

subsection \<open>Where the assessment and the price analysis end\<close>

text \<open>
  Claim C4, as stated, fails: a \<^verbatim>\<open>###\<close> line inside the body of
  \<^verbatim>\<open>## Overall Assessment\<close> ends the body, because the lookahead \<^verbatim>\<open>\n##\<close> also
  matches in front of \<^verbatim>\<open>###\<close>.
\<close>

theorem assessment_body_counterexample:
  "parseAnalysisFromText
     (js ''## Overall Assessment'' @ [nl] @ js ''Good'' @ [nl] @ js ''### Details'' @ [nl] @ js ''More'') =
   Inr \<lparr>overall_assessment = js ''Good'', price_analysis = [],
        recommendations = [], suggested_keywords = []\<rparr>"
  by code_simp

text \<open>
  Claim C4, amended. Let \<open>r\<close> be the text behind the first occurrence of the heading
  \<^verbatim>\<open>## Overall Assessment\<close> (of \<^verbatim>\<open>## Price Analysis\<close>). The body of the section runs
  from the heading to the first newline directly followed by \<^verbatim>\<open>##\<close>, a deeper heading
  such as \<^verbatim>\<open>###\<close> included, or to the end of the text; when that body is not blank,
  the assessment (the price analysis) is the body, trimmed. Without the heading the field
  is empty.
\<close>

theorem section_body_to_newline_hashes:
  "(find_heading (js ''##'') (js ''Overall Assessment'') text = None \<longrightarrow>
      map_sum id overall_assessment (parseAnalysisFromText text) = Inr []) \<and>
   (find_heading (js ''##'') (js ''Overall Assessment'') text = Some (i, r) \<and>
    trim (scan_until (prefix (nl # js ''##'')) r) \<noteq> [] \<longrightarrow>
      map_sum id overall_assessment (parseAnalysisFromText text) =
        Inr (trim (scan_until (prefix (nl # js ''##'')) r))) \<and>
   (find_heading (js ''##'') (js ''Price Analysis'') text = None \<longrightarrow>
      map_sum id price_analysis (parseAnalysisFromText text) = Inr []) \<and>
   (find_heading (js ''##'') (js ''Price Analysis'') text = Some (j, q) \<and>
    trim (scan_until (prefix (nl # js ''##'')) q) \<noteq> [] \<longrightarrow>
      map_sum id price_analysis (parseAnalysisFromText text) =
        Inr (trim (scan_until (prefix (nl # js ''##'')) q)))"
proof (intro conjI impI)
  assume "find_heading (js ''##'') (js ''Overall Assessment'') text = None"
  from section_body_missing[OF this, of level2_stop]
  show "map_sum id overall_assessment (parseAnalysisFromText text) = Inr []"
    by (simp add: parse_eq)
next
  assume a: "find_heading (js ''##'') (js ''Overall Assessment'') text = Some (i, r) \<and>
    trim (scan_until (prefix (nl # js ''##'')) r) \<noteq> []"
  then have "trim (scan_until (prefix (nl # js ''##'')) (dropWhile is_space r)) =
             trim (scan_until (prefix (nl # js ''##'')) r)"
    by (intro trim_scan_after_spaces) simp
  moreover have "section_body (js ''##'') (js ''Overall Assessment'') level2_stop text =
      Some (scan_until (prefix (nl # js ''##'')) (dropWhile is_space r))"
    using section_body_found[of _ _ _ i r level2_stop] a unfolding level2_stop_prefix by blast
  ultimately show "map_sum id overall_assessment (parseAnalysisFromText text) =
        Inr (trim (scan_until (prefix (nl # js ''##'')) r))"
    by (simp add: parse_eq)
next
  assume "find_heading (js ''##'') (js ''Price Analysis'') text = None"
  from section_body_missing[OF this, of level2_stop]
  show "map_sum id price_analysis (parseAnalysisFromText text) = Inr []"
    by (simp add: parse_eq)
next
  assume a: "find_heading (js ''##'') (js ''Price Analysis'') text = Some (j, q) \<and>
    trim (scan_until (prefix (nl # js ''##'')) q) \<noteq> []"
  then have "trim (scan_until (prefix (nl # js ''##'')) (dropWhile is_space q)) =
             trim (scan_until (prefix (nl # js ''##'')) q)"
    by (intro trim_scan_after_spaces) simp
  moreover have "section_body (js ''##'') (js ''Price Analysis'') level2_stop text =
      Some (scan_until (prefix (nl # js ''##'')) (dropWhile is_space q))"
    using section_body_found[of _ _ _ j q level2_stop] a unfolding level2_stop_prefix by blast
  ultimately show "map_sum id price_analysis (parseAnalysisFromText text) =
        Inr (trim (scan_until (prefix (nl # js ''##'')) q))"
    by (simp add: parse_eq)
qed

text \<open>
  The assessment ends in front of \<^verbatim>\<open>### Details\<close>; the price analysis runs to the end
  of the text.
\<close>

theorem section_body_to_newline_hashes_witness:
  "find_heading (js ''##'') (js ''Overall Assessment'') two_sections =
     Some (0, [nl] @ js ''Good'' @ [nl] @ js ''### Details'' @ [nl] @
              js ''More'' @ [nl] @ js ''## Price Analysis'' @ [nl] @ js ''Fair'') \<and>
   find_heading (js ''##'') (js ''Price Analysis'') two_sections = Some (44, [nl] @ js ''Fair'') \<and>
   map_sum id overall_assessment (parseAnalysisFromText two_sections) = Inr (js ''Good'') \<and>
   map_sum id price_analysis (parseAnalysisFromText two_sections) = Inr (js ''Fair'')"
proof -
  let ?R = "[nl] @ js ''Good'' @ [nl] @ js ''### Details'' @ [nl] @
              js ''More'' @ [nl] @ js ''## Price Analysis'' @ [nl] @ js ''Fair''"
  let ?Q = "[nl] @ js ''Fair''"
  have a: "find_heading (js ''##'') (js ''Overall Assessment'') two_sections = Some (0, ?R)"
    by code_simp
  have b: "find_heading (js ''##'') (js ''Price Analysis'') two_sections = Some (44, ?Q)"
    by code_simp
  have e: "trim (scan_until (prefix (nl # js ''##'')) ?R) = js ''Good''"
    by code_simp
  have f: "trim (scan_until (prefix (nl # js ''##'')) ?Q) = js ''Fair''"
    by code_simp
  have g: "js ''Good'' \<noteq> []" "js ''Fair'' \<noteq> []" by (simp_all add: js_simps)
  have ne: "trim (scan_until (prefix (nl # js ''##'')) ?R) \<noteq> []" unfolding e by (rule g(1))
  have nf: "trim (scan_until (prefix (nl # js ''##'')) ?Q) \<noteq> []" unfolding f by (rule g(2))
  note t = section_body_to_newline_hashes[of two_sections 0 ?R 44 ?Q]
  have "map_sum id overall_assessment (parseAnalysisFromText two_sections) =
        Inr (trim (scan_until (prefix (nl # js ''##'')) ?R))"
    by (rule mp[OF conjunct1[OF conjunct2[OF t]] conjI[OF a ne]])
  then have x: "map_sum id overall_assessment (parseAnalysisFromText two_sections) = Inr (js ''Good'')"
    unfolding e .
  have "map_sum id price_analysis (parseAnalysisFromText two_sections) =
        Inr (trim (scan_until (prefix (nl # js ''##'')) ?Q))"
    by (rule mp[OF conjunct2[OF conjunct2[OF conjunct2[OF t]]] conjI[OF b nf]])
  then have y: "map_sum id price_analysis (parseAnalysisFromText two_sections) = Inr (js ''Fair'')"
    unfolding f .
  show ?thesis
    by (intro conjI) (rule a, rule b, rule x, rule y)
qed

subsection \<open>Where the recommendations end\<close>

text \<open>
  Claim C5, as stated, fails: a level-2 heading other than the tags heading does not end
  the recommendations section; here \<^verbatim>\<open>## Price Analysis\<close> and its body become part of
  the last suggestion.
\<close>

theorem recommendations_end_counterexample:
  "parseAnalysisFromText recommendations_then_price =
   Inr \<lparr>overall_assessment = [], price_analysis = js ''Fair'',
        recommendations =
          [\<lparr>element = js ''Title'',
            suggestion = js ''Shorter'' @ [nl] @ js ''## Price Analysis'' @ [nl] @ js ''Fair'',
            reasoning = []\<rparr>],
        suggested_keywords = []\<rparr>"
  by code_simp

text \<open>
  Claim C5, amended. Let \<open>r\<close> be the text behind the first occurrence of the heading
  \<^verbatim>\<open>## Actionable Recommendations\<close>. The body of the section runs from the heading to
  the first newline directly followed by \<^verbatim>\<open>##\<close>, optional white space and
  \<^verbatim>\<open>Suggested SEO Tags\<close>, or to the end of the text; no other level-2 heading ends it.
  When that body is not blank, the recommendations are read from it, its leading white
  space removed. Without the heading there are no recommendations.
\<close>

theorem recommendations_end_at_tags_heading:
  "(find_heading (js ''##'') (js ''Actionable Recommendations'') text = None \<longrightarrow>
      map_sum id recommendations (parseAnalysisFromText text) = Inr []) \<and>
   (find_heading (js ''##'') (js ''Actionable Recommendations'') text = Some (i, r) \<and>
    trim (scan_until tags_stop r) \<noteq> [] \<longrightarrow>
      map_sum id recommendations (parseAnalysisFromText text) =
        parse_recommendations (dropWhile is_space (scan_until tags_stop r)) [])"
proof (intro conjI impI)
  assume "find_heading (js ''##'') (js ''Actionable Recommendations'') text = None"
  from section_body_missing[OF this, of tags_stop]
  show "map_sum id recommendations (parseAnalysisFromText text) = Inr []"
    by (simp add: parse_eq)
next
  assume a: "find_heading (js ''##'') (js ''Actionable Recommendations'') text = Some (i, r) \<and>
    trim (scan_until tags_stop r) \<noteq> []"
  then have "scan_until tags_stop (dropWhile is_space r) =
             dropWhile is_space (scan_until tags_stop r)"
    by (intro scan_after_spaces) simp
  moreover have "section_body (js ''##'') (js ''Actionable Recommendations'') tags_stop text =
      Some (scan_until tags_stop (dropWhile is_space r))"
    using section_body_found[of _ _ _ i r tags_stop] a by blast
  ultimately show "map_sum id recommendations (parseAnalysisFromText text) =
        parse_recommendations (dropWhile is_space (scan_until tags_stop r)) []"
    by (simp add: parse_eq parse_recommendations_eq)
qed

text \<open>The body of the section runs over the price heading to the end of the text.\<close>

theorem recommendations_end_at_tags_heading_witness:
  "find_heading (js ''##'') (js ''Actionable Recommendations'') recommendations_then_price =
     Some (0, [nl] @ js ''### Element: Title'' @ [nl] @
     js ''#### Suggestion: Shorter'' @ [nl] @ js ''## Price Analysis'' @ [nl] @ js ''Fair'') \<and>
   dropWhile is_space (scan_until tags_stop ([nl] @ js ''### Element: Title'' @ [nl] @
     js ''#### Suggestion: Shorter'' @ [nl] @ js ''## Price Analysis'' @ [nl] @ js ''Fair'')) =
     js ''### Element: Title'' @ [nl] @
     js ''#### Suggestion: Shorter'' @ [nl] @ js ''## Price Analysis'' @ [nl] @ js ''Fair'' \<and>
   map_sum id recommendations (parseAnalysisFromText recommendations_then_price) =
     parse_recommendations (js ''### Element: Title'' @ [nl] @
     js ''#### Suggestion: Shorter'' @ [nl] @ js ''## Price Analysis'' @ [nl] @ js ''Fair'') []"
proof -
  let ?R = "[nl] @ js ''### Element: Title'' @ [nl] @
     js ''#### Suggestion: Shorter'' @ [nl] @ js ''## Price Analysis'' @ [nl] @ js ''Fair''"
  have a: "find_heading (js ''##'') (js ''Actionable Recommendations'') recommendations_then_price =
     Some (0, ?R)"
    by code_simp
  have c: "trim (scan_until tags_stop ?R) \<noteq> []"
    by code_simp
  have e: "dropWhile is_space (scan_until tags_stop ?R) =
     js ''### Element: Title'' @ [nl] @
     js ''#### Suggestion: Shorter'' @ [nl] @ js ''## Price Analysis'' @ [nl] @ js ''Fair''"
    by code_simp
  note t = recommendations_end_at_tags_heading[of recommendations_then_price 0 ?R]
  have "map_sum id recommendations (parseAnalysisFromText recommendations_then_price) =
        parse_recommendations (dropWhile is_space (scan_until tags_stop ?R)) []"
    by (rule mp[OF conjunct2[OF t] conjI[OF a c]])
  then have x: "map_sum id recommendations (parseAnalysisFromText recommendations_then_price) =
     parse_recommendations (js ''### Element: Title'' @ [nl] @
     js ''#### Suggestion: Shorter'' @ [nl] @ js ''## Price Analysis'' @ [nl] @ js ''Fair'') []"
    unfolding e .
  show ?thesis
    by (intro conjI) (rule a, rule e, rule x)
qed

subsection \<open>Which blocks give an item\<close>

text \<open>
  Claim C6 does not hold of the extractor. In the section body below nothing follows
  \<^verbatim>\<open>Element:\<close> on the line of the marker, so the label of the block is empty and the
  claim has no item for it. But the white space pattern behind \<^verbatim>\<open>Element:\<close> runs over
  the newline, and group 1 captures the next line: the test of the label succeeds, and an
  item is added that has the suggestion heading for its label and no suggestion.
\<close>

theorem unlabelled_block_gives_item:
  "text_blocks True unlabelled_body =
     [\<lparr>marker_text = js ''### Element:'', label_text = [],
       chunk_text = [nl] @ js ''#### Suggestion: Shorter'' @ [nl] @
                    js ''#### Reasoning: Too long''\<rparr>] \<and>
   parseAnalysisFromText (js ''## Actionable Recommendations'' @ [nl] @ unlabelled_body) =
     Inr \<lparr>overall_assessment = [], price_analysis = [],
          recommendations =
            [\<lparr>element = js ''#### Suggestion: Shorter'', suggestion = [],
              reasoning = js ''Too long''\<rparr>],
          suggested_keywords = []\<rparr>"
  by code_simp

subsection \<open>Bullet paragraphs\<close>

text \<open>
  Claim C7, as stated, fails: the example text gives three paragraph chunks, not two.
\<close>

theorem bullet_chunks_counterexample:
  "length (paragraphs_of bullet_example) = 3"
  by code_simp

text \<open>
  Claim C7, amended. The example text gives three chunks, hence three paragraphs. In
  general the separator that the split removes is a newline together with the white space
  behind it, at every place where an asterisk comes next; the asterisk starts the next
  chunk.
\<close>

theorem bullet_chunks:
  "paragraphs_of bullet_example =
     [js ''Intro line'', js ''* First bullet'', js ''* Second bullet''] \<and>
   formatAIResponseWithAsterisks bullet_example =
     js ''<p>Intro line</p><p>First bullet</p><p>Second bullet</p>'' \<and>
   exec_at paragraph_rx bef rst =
     (case rst of
        [] \<Rightarrow> None
      | c # cs \<Rightarrow>
          if c = nl \<and> prefix (js ''*'') (dropWhile is_space cs)
          then Some \<lparr>m_index = length bef, m_whole = nl # takeWhile is_space cs,
                     m_group1 = None\<rparr>
          else None)"
proof (intro conjI)
  show "paragraphs_of bullet_example =
     [js ''Intro line'', js ''* First bullet'', js ''* Second bullet'']"
    by code_simp
  show "formatAIResponseWithAsterisks bullet_example =
     js ''<p>Intro line</p><p>First bullet</p><p>Second bullet</p>''"
    by code_simp
  show "exec_at paragraph_rx bef rst =
     (case rst of
        [] \<Rightarrow> None
      | c # cs \<Rightarrow>
          if c = nl \<and> prefix (js ''*'') (dropWhile is_space cs)
          then Some \<lparr>m_index = length bef, m_whole = nl # takeWhile is_space cs,
                     m_group1 = None\<rparr>
          else None)"
    by (rule exec_paragraph)
qed

subsection \<open>Formatting twice\<close>

text \<open>
  Claim C8, as stated, fails: formatting a formatted plain text adds a second paragraph
  wrapper.
\<close>

theorem formatter_idempotence_counterexample:
  "formatAIResponseWithAsterisks (js ''abc'') = js ''<p>abc</p>'' \<and>
   formatAIResponseWithAsterisks (formatAIResponseWithAsterisks (js ''abc'')) =
     js ''<p><p>abc</p></p>''"
  by code_simp

text \<open>
  Claim C8, amended. The formatter is not idempotent. A non-empty text without asterisk
  becomes one paragraph, the trimmed text with \<^verbatim>\<open><br>\<close> for each newline between
  \<^verbatim>\<open><p>\<close> and \<^verbatim>\<open></p>\<close>; formatting the result again wraps it in one more
  paragraph; and the formatted text never equals the text.
\<close>

theorem formatter_wraps_again:
  assumes "0x002A \<notin> set t" and "t \<noteq> []"
  shows "formatAIResponseWithAsterisks t = js ''<p>'' @ line_breaks (trim t) @ js ''</p>'' \<and>
         formatAIResponseWithAsterisks (formatAIResponseWithAsterisks t) =
           js ''<p>'' @ formatAIResponseWithAsterisks t @ js ''</p>'' \<and>
         formatAIResponseWithAsterisks (formatAIResponseWithAsterisks t) \<noteq>
           formatAIResponseWithAsterisks t \<and>
         formatAIResponseWithAsterisks t \<noteq> t"
proof -
  define b where "b = line_breaks (trim t)"
  have f: "formatAIResponseWithAsterisks t = js ''<p>'' @ b @ js ''</p>''"
    unfolding b_def by (rule format_plain[OF assms])
  have "0x002A \<notin> set (trim t)" using assms(1) set_trim by blast
  then have a: "0x002A \<notin> set b"
    using line_breaks_set[of "trim t"] unfolding b_def by (auto simp: js_simps)
  have n: "nl \<notin> set b" unfolding b_def by (rule line_breaks_no_newline)
  have ff: "formatAIResponseWithAsterisks (formatAIResponseWithAsterisks t) =
           js ''<p>'' @ formatAIResponseWithAsterisks t @ js ''</p>''"
    unfolding f by (rule format_wrapped[OF a n])
  have ne: "formatAIResponseWithAsterisks (formatAIResponseWithAsterisks t) \<noteq>
           formatAIResponseWithAsterisks t"
  proof
    assume "formatAIResponseWithAsterisks (formatAIResponseWithAsterisks t) =
           formatAIResponseWithAsterisks t"
    then have "length (js ''<p>'' @ formatAIResponseWithAsterisks t @ js ''</p>'') =
               length (formatAIResponseWithAsterisks t)"
      using ff by simp
    then show False by (simp add: js_simps)
  qed
  have nt: "formatAIResponseWithAsterisks t \<noteq> t"
  proof
    assume e: "formatAIResponseWithAsterisks t = t"
    then have t: "t = js ''<p>'' @ b @ js ''</p>''" using f by simp
    have "trim t = t" by (subst (1 2) t) (rule trim_wrapped)
    then have "b = line_breaks t" by (simp add: b_def)
    then have "length t \<le> length b" using length_line_breaks[of t] by simp
    moreover have "length t = length b + 7" by (subst t) (simp add: js_simps)
    ultimately show False by simp
  qed
  show ?thesis using f ff ne nt b_def by simp
qed

text \<open>A text of two lines with white space around it.\<close>

theorem formatter_wraps_again_witness:
  "0x002A \<notin> set (js '' one'' @ [nl] @ js ''two '') \<and>
   js '' one'' @ [nl] @ js ''two '' \<noteq> [] \<and>
   formatAIResponseWithAsterisks (js '' one'' @ [nl] @ js ''two '') = js ''<p>one<br>two</p>'' \<and>
   formatAIResponseWithAsterisks (formatAIResponseWithAsterisks (js '' one'' @ [nl] @ js ''two '')) =
     js ''<p><p>one<br>two</p></p>''"
proof -
  have a: "0x002A \<notin> set (js '' one'' @ [nl] @ js ''two '')"
    by (simp add: js_simps nl_def)
  have b: "js '' one'' @ [nl] @ js ''two '' \<noteq> []" by simp
  have c: "line_breaks (trim (js '' one'' @ [nl] @ js ''two '')) = js ''one<br>two''"
    by code_simp
  note w = formatter_wraps_again[OF a b, unfolded c]
  have f1: "formatAIResponseWithAsterisks (js '' one'' @ [nl] @ js ''two '') =
            js ''<p>one<br>two</p>''"
    using w by (simp add: js_simps)
  have f2: "formatAIResponseWithAsterisks
              (formatAIResponseWithAsterisks (js '' one'' @ [nl] @ js ''two '')) =
            js ''<p>'' @ formatAIResponseWithAsterisks (js '' one'' @ [nl] @ js ''two '') @
            js ''</p>''"
    using w by blast
  have f3: "formatAIResponseWithAsterisks
              (formatAIResponseWithAsterisks (js '' one'' @ [nl] @ js ''two '')) =
            js ''<p><p>one<br>two</p></p>''"
    by (subst f2, subst f1) (simp add: js_simps)
  show ?thesis
    by (intro conjI) (rule a, rule b, rule f1, rule f3)
qed

subsection \<open>Empty text, bold spans, unmatched markers\<close>

text \<open>
  Claim C9, as stated, fails in its last part: an unmatched double asterisk that starts a
  paragraph chunk loses its first asterisk to the bullet stripping.
\<close>

theorem unmatched_marker_counterexample:
  "formatAIResponseWithAsterisks (js ''**Note: oak'') = js ''<p>*Note: oak</p>''"
  by code_simp

text \<open>
  Claim C9, amended. The empty text is formatted to the empty text, the example with one
  bold span to one paragraph with a strong-emphasis element, and the bold replacement
  leaves a text unchanged that has no well-formed span (two asterisks, one or more code
  units other than an asterisk, two asterisks).
\<close>

theorem formatter_empty_bold_and_unmatched:
  "formatAIResponseWithAsterisks [] = [] \<and>
   formatAIResponseWithAsterisks (js ''**Bold** and plain'') =
     js ''<p><strong>Bold</strong> and plain</p>'' \<and>
   (\<not> has_bold_span t \<longrightarrow> replace_all bold_rx strong_of t = t)"
proof (intro conjI impI)
  show "formatAIResponseWithAsterisks [] = []"
    by (simp add: formatAIResponseWithAsterisks_def)
  show "formatAIResponseWithAsterisks (js ''**Bold** and plain'') =
     js ''<p><strong>Bold</strong> and plain</p>''"
    by code_simp
  show "replace_all bold_rx strong_of t = t" if "\<not> has_bold_span t"
    using that by (rule bold_noop)
qed

text \<open>An opening marker without a closing one.\<close>

theorem formatter_empty_bold_and_unmatched_witness:
  "\<not> has_bold_span (js ''**x'') \<and> replace_all bold_rx strong_of (js ''**x'') = js ''**x''"
proof -
  have n: "\<not> has_bold_span (js ''**x'')"
  proof
    assume "has_bold_span (js ''**x'')"
    then obtain pre inner post where e: "js ''**x'' = pre @ js ''**'' @ inner @ js ''**'' @ post"
      unfolding has_bold_span_def by blast
    have "length (js ''**x'') = length (pre @ js ''**'' @ inner @ js ''**'' @ post)"
      by (subst e) (rule refl)
    then show False by (simp add: js_simps)
  qed
  then show ?thesis
    using formatter_empty_bold_and_unmatched[of "js ''**x''"] by blast
qed

subsection \<open>Where headings and block markers are recognised\<close>

text \<open>
  Claim C10, as stated, fails for the block markers: a \<^verbatim>\<open>### Element:\<close> marker on the
  line of the section heading, in the middle of that line, is recognised, because the
  section body starts only after the white space that follows the heading.
\<close>

theorem marker_on_heading_line_counterexample:
  "parseAnalysisFromText
     (js ''## Actionable Recommendations ### Element: Title'' @ [nl] @
      js ''#### Suggestion: Shorter'') =
   Inr \<lparr>overall_assessment = [], price_analysis = [],
        recommendations =
          [\<lparr>element = js ''Title'', suggestion = js ''Shorter'', reasoning = []\<rparr>],
        suggested_keywords = []\<rparr>"
  by code_simp

text \<open>
  Claim C10, amended. Each of the four level-2 patterns matches at position \<open>i\<close> of the
  text exactly when \<open>i\<close> is the first position at which its heading stands
  (\<^verbatim>\<open>##\<close>, optional white space, the name), whatever precedes it, the middle of a line
  included. A \<^verbatim>\<open>### Element:\<close> marker is recognised only at the very start of the
  section body or directly behind a line terminator of the body.
\<close>

theorem headings_anywhere_markers_at_line_start:
  "((\<exists>m. js_match assessment_rx text = Some m \<and> m_index m = i) =
      (i \<le> length text \<and> heading_at (js ''##'') (js ''Overall Assessment'') (drop i text) \<and>
       (\<forall>j<i. \<not> heading_at (js ''##'') (js ''Overall Assessment'') (drop j text)))) \<and>
   ((\<exists>m. js_match price_rx text = Some m \<and> m_index m = i) =
      (i \<le> length text \<and> heading_at (js ''##'') (js ''Price Analysis'') (drop i text) \<and>
       (\<forall>j<i. \<not> heading_at (js ''##'') (js ''Price Analysis'') (drop j text)))) \<and>
   ((\<exists>m. js_match tags_rx text = Some m \<and> m_index m = i) =
      (i \<le> length text \<and> heading_at (js ''##'') (js ''Suggested SEO Tags (13)'') (drop i text) \<and>
       (\<forall>j<i. \<not> heading_at (js ''##'') (js ''Suggested SEO Tags (13)'') (drop j text)))) \<and>
   ((\<exists>m. js_match recommendations_rx text = Some m \<and> m_index m = i) =
      (i \<le> length text \<and>
       heading_at (js ''##'') (js ''Actionable Recommendations'') (drop i text) \<and>
       (\<forall>j<i. \<not> heading_at (js ''##'') (js ''Actionable Recommendations'') (drop j text)))) \<and>
   (\<forall>m\<in>set (match_all element_rx body).
      m_index m = 0 \<or>
      (m_index m \<le> length body \<and> is_line_terminator (body ! (m_index m - 1))))"
proof (intro conjI ballI)
  show "(\<exists>m. js_match assessment_rx text = Some m \<and> m_index m = i) =
      (i \<le> length text \<and> heading_at (js ''##'') (js ''Overall Assessment'') (drop i text) \<and>
       (\<forall>j<i. \<not> heading_at (js ''##'') (js ''Overall Assessment'') (drop j text)))"
    unfolding rx_shapes by (rule js_match_first_occurrence[OF stop_level2 name_ok(1,2)])
  show "(\<exists>m. js_match price_rx text = Some m \<and> m_index m = i) =
      (i \<le> length text \<and> heading_at (js ''##'') (js ''Price Analysis'') (drop i text) \<and>
       (\<forall>j<i. \<not> heading_at (js ''##'') (js ''Price Analysis'') (drop j text)))"
    unfolding rx_shapes by (rule js_match_first_occurrence[OF stop_level2 name_ok(3,4)])
  show "(\<exists>m. js_match tags_rx text = Some m \<and> m_index m = i) =
      (i \<le> length text \<and> heading_at (js ''##'') (js ''Suggested SEO Tags (13)'') (drop i text) \<and>
       (\<forall>j<i. \<not> heading_at (js ''##'') (js ''Suggested SEO Tags (13)'') (drop j text)))"
    unfolding rx_shapes by (rule js_match_first_occurrence[OF stop_level2 name_ok(5,6)])
  show "(\<exists>m. js_match recommendations_rx text = Some m \<and> m_index m = i) =
      (i \<le> length text \<and>
       heading_at (js ''##'') (js ''Actionable Recommendations'') (drop i text) \<and>
       (\<forall>j<i. \<not> heading_at (js ''##'') (js ''Actionable Recommendations'') (drop j text)))"
    unfolding rx_shapes by (rule js_match_first_occurrence[OF stop_tags name_ok(7,8)])
next
  fix m assume "m \<in> set (match_all element_rx body)"
  then show "m_index m = 0 \<or>
      (m_index m \<le> length body \<and> is_line_terminator (body ! (m_index m - 1)))"
    by (rule element_marker_at_line_start)
qed

text \<open>
  The heading in the middle of the first line is found, at position 6, and wins over the
  one that starts the second line; the second marker of the example body, at position 44,
  stands behind a newline.
\<close>

theorem headings_anywhere_markers_at_line_start_witness:
  "js_match price_rx midline_heading =
     Some \<lparr>m_index = 6, m_whole = js ''## Price Analysis Fair'', m_group1 = Some (js ''Fair'')\<rparr> \<and>
   heading_at (js ''##'') (js ''Price Analysis'') (drop 6 midline_heading) \<and>
   \<lparr>m_index = 44, m_whole = js ''### Element: Photos'', m_group1 = Some (js ''Photos'')\<rparr>
     \<in> set (match_all element_rx two_blocks) \<and>
   is_line_terminator (two_blocks ! 43)"
proof -
  let ?m = "\<lparr>m_index = 6, m_whole = js ''## Price Analysis Fair'', m_group1 = Some (js ''Fair'')\<rparr>"
  let ?e = "\<lparr>m_index = 44, m_whole = js ''### Element: Photos'', m_group1 = Some (js ''Photos'')\<rparr>"
  have a: "js_match price_rx midline_heading = Some ?m"
    by code_simp
  have b: "?e \<in> set (match_all element_rx two_blocks)"
    by code_simp
  note t = headings_anywhere_markers_at_line_start[of midline_heading 6 two_blocks]
  have "\<exists>m. js_match price_rx midline_heading = Some m \<and> m_index m = 6"
    by (rule exI[of _ ?m]) (simp add: a)
  then have "6 \<le> length midline_heading \<and>
      heading_at (js ''##'') (js ''Price Analysis'') (drop 6 midline_heading) \<and>
      (\<forall>j<6. \<not> heading_at (js ''##'') (js ''Price Analysis'') (drop j midline_heading))"
    using conjunct1[OF conjunct2[OF t]] by (rule iffD1[rotated])
  then have x: "heading_at (js ''##'') (js ''Price Analysis'') (drop 6 midline_heading)"
    by (rule conjunct1[OF conjunct2])
  have "m_index ?e = 0 \<or>
        (m_index ?e \<le> length two_blocks \<and> is_line_terminator (two_blocks ! (m_index ?e - 1)))"
    using conjunct2[OF conjunct2[OF conjunct2[OF conjunct2[OF t]]]] b by (rule bspec)
  then have y: "is_line_terminator (two_blocks ! 43)" by simp
  show ?thesis
    by (intro conjI) (rule a, rule x, rule b, rule y)
qed

end
